theory Spec2Isabelle
  imports Main
begin

section \<open>JavaScript numbers as App.vue uses them\<close>

text \<open>
  Every number that App.vue computes is an integer or NaN: years, months, days, time
  values in milliseconds and their differences, and one floored quotient. All of them stay
  far below \<open>2^53\<close> in absolute value whenever the dates involved are valid, so binary64
  arithmetic is exact on them and \<open>int\<close> is a faithful carrier. NaN is kept as a value of
  its own: an Invalid Date is a truthy object whose getters return NaN, every comparison
  with NaN is false, and \<open>Math.max\<close> and \<open>Math.min\<close> return NaN as soon as one argument is
  NaN.
\<close>

datatype jsnum = NaN | Num int

definition js_sub :: "jsnum \<Rightarrow> jsnum \<Rightarrow> jsnum" where
  "js_sub a b = (case (a, b) of (Num x, Num y) \<Rightarrow> Num (x - y) | _ \<Rightarrow> NaN)"

definition js_add :: "jsnum \<Rightarrow> jsnum \<Rightarrow> jsnum" where
  "js_add a b = (case (a, b) of (Num x, Num y) \<Rightarrow> Num (x + y) | _ \<Rightarrow> NaN)"

definition js_lt :: "jsnum \<Rightarrow> jsnum \<Rightarrow> bool" where
  "js_lt a b = (case (a, b) of (Num x, Num y) \<Rightarrow> x < y | _ \<Rightarrow> False)"

definition js_le :: "jsnum \<Rightarrow> jsnum \<Rightarrow> bool" where
  "js_le a b = (case (a, b) of (Num x, Num y) \<Rightarrow> x \<le> y | _ \<Rightarrow> False)"

definition js_eq :: "jsnum \<Rightarrow> jsnum \<Rightarrow> bool" where
  \<comment> \<open>strict equality \<open>===\<close> on numbers: NaN is different from everything, itself included\<close>
  "js_eq a b = (case (a, b) of (Num x, Num y) \<Rightarrow> x = y | _ \<Rightarrow> False)"

definition falsy :: "jsnum \<Rightarrow> bool" where
  \<comment> \<open>\<open>!x\<close> on a number: true for 0 and for NaN\<close>
  "falsy a = (case a of NaN \<Rightarrow> True | Num x \<Rightarrow> x = 0)"

definition Math_max :: "jsnum \<Rightarrow> jsnum \<Rightarrow> jsnum" where
  "Math_max a b = (case (a, b) of (Num x, Num y) \<Rightarrow> Num (max x y) | _ \<Rightarrow> NaN)"

definition Math_min :: "jsnum \<Rightarrow> jsnum \<Rightarrow> jsnum" where
  "Math_min a b = (case (a, b) of (Num x, Num y) \<Rightarrow> Num (min x y) | _ \<Rightarrow> NaN)"

definition Math_floor_quot :: "jsnum \<Rightarrow> int \<Rightarrow> jsnum" where
  \<comment> \<open>\<open>Math.floor(a / k)\<close> for a positive integer constant \<open>k\<close>\<close>
  "Math_floor_quot a k = (case a of NaN \<Rightarrow> NaN | Num x \<Rightarrow> Num (x div k))"


section \<open>The Date object\<close>

text \<open>
  A Date holds a time value in milliseconds, or NaN (an Invalid Date). The calendar
  functions below are the abstract operations of ECMA-262 (Day, DayFromYear,
  YearFromTime, MonthFromTime, DateFromTime, MakeDay, TimeClip). App.vue only uses the
  local-time constructor and the local-time getters; the model takes local time to be UTC
  (offset zero, no daylight saving), so a time value is also the local time. Shifts of the
  offset between two dates are outside this model.
\<close>

datatype jsdate = InvalidDate | DateValue int

definition msPerDay :: int where
  "msPerDay = 86400000"

definition Day :: "int \<Rightarrow> int" where
  "Day t = t div msPerDay"

definition isLeapYear :: "int \<Rightarrow> bool" where
  "isLeapYear y = (y mod 4 = 0 \<and> (y mod 100 \<noteq> 0 \<or> y mod 400 = 0))"

definition DayFromYear :: "int \<Rightarrow> int" where
  "DayFromYear y =
     365 * (y - 1970) + (y - 1969) div 4 - (y - 1901) div 100 + (y - 1601) div 400"

definition YearFromDay :: "int \<Rightarrow> int" where
  \<comment> \<open>the largest year \<open>y\<close> with \<open>DayFromYear y \<le> n\<close>, found from an estimate that is off
      by at most one; see \<open>YearFromDay_low\<close>, \<open>YearFromDay_high\<close>, \<open>YearFromDay_unique\<close>\<close>
  "YearFromDay n =
     (let e = 1970 + (400 * n) div 146097 in
      if DayFromYear (e + 1) \<le> n then e + 1
      else if DayFromYear e \<le> n then e
      else e - 1)"

definition monthStart :: "bool \<Rightarrow> int \<Rightarrow> int" where
  \<comment> \<open>day within the year on which month \<open>m\<close> (0-based) starts\<close>
  "monthStart leap m =
     (if m \<le> 0 then 0 else if m = 1 then 31
      else (if leap then 1 else 0) +
        (if m = 2 then 59 else if m = 3 then 90 else if m = 4 then 120
         else if m = 5 then 151 else if m = 6 then 181 else if m = 7 then 212
         else if m = 8 then 243 else if m = 9 then 273 else if m = 10 then 304
         else if m = 11 then 334 else 365))"

definition DaysInMonth :: "bool \<Rightarrow> int \<Rightarrow> int" where
  "DaysInMonth leap m =
     (if m = 1 then (if leap then 29 else 28)
      else if m = 3 \<or> m = 5 \<or> m = 8 \<or> m = 10 then 30 else 31)"

definition MonthInYear :: "bool \<Rightarrow> int \<Rightarrow> int" where
  \<comment> \<open>the table of MonthFromTime, on the day within the year\<close>
  "MonthInYear leap dw =
     (let l = (if leap then 1 else 0) in
      if dw < 31 then 0 else if dw < 59 + l then 1 else if dw < 90 + l then 2
      else if dw < 120 + l then 3 else if dw < 151 + l then 4 else if dw < 181 + l then 5
      else if dw < 212 + l then 6 else if dw < 243 + l then 7 else if dw < 273 + l then 8
      else if dw < 304 + l then 9 else if dw < 334 + l then 10 else 11)"

definition DayWithinYear :: "int \<Rightarrow> int" where
  "DayWithinYear n = n - DayFromYear (YearFromDay n)"

definition MonthFromDay :: "int \<Rightarrow> int" where
  "MonthFromDay n = MonthInYear (isLeapYear (YearFromDay n)) (DayWithinYear n)"

definition DateFromDay :: "int \<Rightarrow> int" where
  "DateFromDay n =
     DayWithinYear n - monthStart (isLeapYear (YearFromDay n)) (MonthFromDay n) + 1"

definition MakeDay :: "int \<Rightarrow> int \<Rightarrow> int \<Rightarrow> int" where
  "MakeDay year month date =
     (let ym = year + month div 12; mn = month mod 12
      in DayFromYear ym + monthStart (isLeapYear ym) mn + date - 1)"

definition maxTime :: int where
  "maxTime = 8640000000000000"

definition TimeClip :: "int \<Rightarrow> jsdate" where
  "TimeClip t = (if \<bar>t\<bar> > maxTime then InvalidDate else DateValue t)"

definition MakeFullYear :: "int \<Rightarrow> int" where
  \<comment> \<open>the constructor reads a year from 0 to 99 as 1900 + year\<close>
  "MakeFullYear y = (if 0 \<le> y \<and> y \<le> 99 then 1900 + y else y)"

definition new_Date :: "jsnum \<Rightarrow> jsnum \<Rightarrow> jsnum \<Rightarrow> jsdate" where
  \<comment> \<open>\<open>new Date(year, month, day)\<close>: local midnight of the normalised date\<close>
  "new_Date year month date =
     (case (year, month, date) of
        (Num y, Num m, Num d) \<Rightarrow> TimeClip (MakeDay (MakeFullYear y) m d * msPerDay)
      | _ \<Rightarrow> InvalidDate)"

definition getTime :: "jsdate \<Rightarrow> jsnum" where
  "getTime d = (case d of InvalidDate \<Rightarrow> NaN | DateValue t \<Rightarrow> Num t)"

definition getFullYear :: "jsdate \<Rightarrow> jsnum" where
  "getFullYear d = (case d of InvalidDate \<Rightarrow> NaN | DateValue t \<Rightarrow> Num (YearFromDay (Day t)))"

definition getMonth :: "jsdate \<Rightarrow> jsnum" where
  "getMonth d = (case d of InvalidDate \<Rightarrow> NaN | DateValue t \<Rightarrow> Num (MonthFromDay (Day t)))"

definition getDate :: "jsdate \<Rightarrow> jsnum" where
  "getDate d = (case d of InvalidDate \<Rightarrow> NaN | DateValue t \<Rightarrow> Num (DateFromDay (Day t)))"


section \<open>App.vue: date arithmetic\<close>

definition TOTAL_YEARS :: int where
  "TOTAL_YEARS = 90"

definition WEEKS_PER_YEAR :: int where
  "WEEKS_PER_YEAR = 52"

definition startOfDay :: "jsdate \<Rightarrow> jsdate" where
  "startOfDay d = new_Date (getFullYear d) (getMonth d) (getDate d)"

definition getAgeYears :: "jsdate \<Rightarrow> jsdate \<Rightarrow> jsnum" where
  "getAgeYears birth onDate =
     (let age = js_sub (getFullYear onDate) (getFullYear birth);
          birthMonth = getMonth birth;
          birthDay = getDate birth;
          month = getMonth onDate;
          day = getDate onDate;
          age' = (if js_lt month birthMonth \<or> (js_eq month birthMonth \<and> js_lt day birthDay)
                  then js_sub age (Num 1) else age)
      in Math_max (Num 0) age')"

definition lastBirthday :: "jsdate \<Rightarrow> jsdate \<Rightarrow> jsdate" where
  "lastBirthday birth onDate =
     (let age = getAgeYears birth onDate
      in new_Date (js_add (getFullYear birth) age) (getMonth birth) (getDate birth))"

definition msPerWeek :: int where
  "msPerWeek = 1000 * 60 * 60 * 24 * 7"

definition weeksSinceLastBirthday :: "jsdate \<Rightarrow> jsdate \<Rightarrow> jsnum" where
  "weeksSinceLastBirthday birth onDate =
     (let start = startOfDay (lastBirthday birth onDate);
          end = startOfDay onDate;
          diff = js_sub (getTime end) (getTime start)
      in if js_le diff (Num 0) then Num 0 else Math_floor_quot diff msPerWeek)"

definition isWeekPassed :: "jsdate option \<Rightarrow> jsdate \<Rightarrow> int \<Rightarrow> int \<Rightarrow> bool" where
  \<comment> \<open>the first two arguments are the values of \<open>birthDate\<close> (null is \<open>None\<close>) and \<open>today\<close>\<close>
  "isWeekPassed birthDate_value today_value yearIndex weekIndex =
     (case birthDate_value of
        None \<Rightarrow> False
      | Some birth \<Rightarrow>
          (let now = today_value;
               ageYears = getAgeYears birth now
           in if js_lt (Num yearIndex) ageYears then True
              else if js_lt ageYears (Num yearIndex) then False
              else (let weeksThisYear =
                          Math_min (Num WEEKS_PER_YEAR) (weeksSinceLastBirthday birth now)
                    in js_lt (Num weekIndex) weeksThisYear)))"



section \<open>App.vue: reading the birth date\<close>

text \<open>
  \<open>Number\<close> is applied to the pieces of the input between dashes. The model covers the
  pieces that are strings of decimal digits (the empty string included, which converts to
  0): these are all the pieces the \<open>YYYY-MM-DD\<close> pattern of \<open>isValidDateInput\<close> lets
  through and all that a date picker produces. On any other piece (a sign, a fraction, an
  exponent, a hexadecimal literal, white space, other text) \<open>Number_js\<close> answers \<open>None\<close>:
  the model does not say what the program does there.
\<close>

definition isDigit :: "char \<Rightarrow> bool" where
  "isDigit c = (c \<in> set ''0123456789'')"

definition digitVal :: "char \<Rightarrow> int" where
  \<comment> \<open>the value of a decimal digit\<close>
  "digitVal c =
     (case map_of (zip ''0123456789'' [0, 1, 2, 3, 4, 5, 6, 7, 8, 9]) c of
        Some v \<Rightarrow> v
      | None \<Rightarrow> 0)"

definition digitsValue :: "string \<Rightarrow> int" where
  "digitsValue s = foldl (\<lambda>a c. 10 * a + digitVal c) 0 s"

definition digitsToNumber :: "string \<Rightarrow> jsnum" where
  \<comment> \<open>\<open>Number(s)\<close> for a string of decimal digits: \<open>Number('')\<close> is 0, \<open>Number('0042')\<close> is 42\<close>
  "digitsToNumber s = Num (digitsValue s)"

definition Number_js :: "string \<Rightarrow> jsnum option" where
  "Number_js s = (if list_all isDigit s then Some (digitsToNumber s) else None)"

fun split_dash :: "string \<Rightarrow> string list" where
  \<comment> \<open>\<open>s.split('-')\<close>\<close>
  "split_dash [] = [[]]"
| "split_dash (c # cs) =
     (if c = CHR ''-'' then [] # split_dash cs
      else (case split_dash cs of p # ps \<Rightarrow> (c # p) # ps | [] \<Rightarrow> [[c]]))"

fun matchesDatePattern :: "string \<Rightarrow> bool" where
  \<comment> \<open>the test of \<open>/^\d{4}-\d{2}-\d{2}$/\<close>: the whole input is ten characters of this shape\<close>
  "matchesDatePattern [y1, y2, y3, y4, s1, m1, m2, s2, d1, d2] =
     (isDigit y1 \<and> isDigit y2 \<and> isDigit y3 \<and> isDigit y4 \<and> s1 = CHR ''-'' \<and>
      isDigit m1 \<and> isDigit m2 \<and> s2 = CHR ''-'' \<and> isDigit d1 \<and> isDigit d2)"
| "matchesDatePattern _ = False"

definition birthDate :: "string \<Rightarrow> jsdate option option" where
  \<comment> \<open>the computed value \<open>birthDate\<close> as a function of \<open>birthInput\<close>: \<open>Some None\<close> is null,
      \<open>Some (Some d)\<close> a Date, and \<open>None\<close> an input with three pieces of which one is
      outside the digit strings that \<open>Number_js\<close> covers\<close>
  "birthDate birthInput_value =
     (if birthInput_value = [] then Some None
      else let parts = split_dash birthInput_value in
        if length parts \<noteq> 3 then Some None
        else (case map Number_js parts of
                [Some year, Some month, Some day] \<Rightarrow>
                  Some (if falsy year \<or> falsy month \<or> falsy day then None
                        else Some (new_Date year (js_sub month (Num 1)) day))
              | _ \<Rightarrow> None))"

definition isValidDateInput :: "string \<Rightarrow> bool" where
  \<comment> \<open>after the pattern test the three pieces are digit strings (\<open>pattern_split\<close>), so
      \<open>Number\<close> is \<open>digitsToNumber\<close> on them\<close>
  "isValidDateInput v =
     (if \<not> matchesDatePattern v then False
      else (case map digitsToNumber (split_dash v) of
              [y, m, d] \<Rightarrow>
                if falsy y \<or> falsy m \<or> falsy d then False
                else (let dt = new_Date y (js_sub m (Num 1)) d
                      in js_eq (getFullYear dt) y \<and> js_eq (getMonth dt) (js_sub m (Num 1))
                         \<and> js_eq (getDate dt) d)
            | _ \<Rightarrow> False))"


section \<open>App.vue: component state, start-up and the grid\<close>

record app_state =
  birthInput :: string
  hasDobParam :: bool
  today :: jsdate

definition initial_state :: "jsdate \<Rightarrow> app_state" where
  \<comment> \<open>the refs as \<open>setup\<close> creates them; \<open>now\<close> is the value of \<open>new Date()\<close>\<close>
  "initial_state now = \<lparr>birthInput = [], hasDobParam = False, today = now\<rparr>"

definition onMounted :: "string option \<Rightarrow> app_state \<Rightarrow> app_state" where
  \<comment> \<open>the argument is the value of \<open>params.get('dob')\<close>: \<open>None\<close> is null\<close>
  "onMounted dob st =
     (case dob of
        None \<Rightarrow> st
      | Some v \<Rightarrow>
          if v \<noteq> [] \<and> isValidDateInput v
          then st\<lparr>birthInput := v, hasDobParam := True\<rparr>
          else st)"

definition pickerShown :: "app_state \<Rightarrow> bool" where
  \<comment> \<open>\<open>v-if="!hasDobParam"\<close> on the block that holds the date input\<close>
  "pickerShown st = (\<not> hasDobParam st)"

record life_expectancy =
  years :: int
  weeks :: int
  totalWeeks :: int

definition LIFE_EXPECTANCY_women :: life_expectancy where
  "LIFE_EXPECTANCY_women = \<lparr>years = 81, weeks = 15, totalWeeks = 81 * WEEKS_PER_YEAR + 15\<rparr>"

definition LIFE_EXPECTANCY_men :: life_expectancy where
  "LIFE_EXPECTANCY_men = \<lparr>years = 76, weeks = 10, totalWeeks = 76 * WEEKS_PER_YEAR + 10\<rparr>"

definition cellClasses :: "jsdate option \<Rightarrow> jsdate \<Rightarrow> int \<Rightarrow> int \<Rightarrow> string list" where
  \<comment> \<open>the \<open>:class\<close> array of the cell that \<open>v-for\<close> renders for \<open>year\<close> in 1..90 and
      \<open>week\<close> in 1..52\<close>
  "cellClasses birthDate_value today_value year week =
     [if isWeekPassed birthDate_value today_value (year - 1) (week - 1)
      then ''bg-rose-600'' else ''bg-neutral-800'',
      if week = weeks LIFE_EXPECTANCY_women \<and> year = years LIFE_EXPECTANCY_women
      then ''border-1 border-emerald-500'' else [],
      if week = weeks LIFE_EXPECTANCY_men \<and> year = years LIFE_EXPECTANCY_men
      then ''border-1 border-blue-500'' else []]"

definition gridCell :: "app_state \<Rightarrow> int \<Rightarrow> int \<Rightarrow> string list option" where
  \<comment> \<open>the classes of a rendered cell in a state of the component\<close>
  "gridCell st year week =
     map_option (\<lambda>b. cellClasses b (today st) year week) (birthDate (birthInput st))"


section \<open>Notions used to state the properties\<close>

definition validTime :: "int \<Rightarrow> bool" where
  \<comment> \<open>the time values a Date can hold\<close>
  "validTime t = (\<bar>t\<bar> \<le> maxTime)"

definition validCalendarDate :: "int \<Rightarrow> int \<Rightarrow> int \<Rightarrow> bool" where
  \<comment> \<open>month from 1 to 12 and a day that exists in that month of that year\<close>
  "validCalendarDate y m d =
     (1 \<le> m \<and> m \<le> 12 \<and> 1 \<le> d \<and> d \<le> DaysInMonth (isLeapYear y) (m - 1))"

definition monthDayBefore :: "int \<Rightarrow> int \<Rightarrow> int \<Rightarrow> int \<Rightarrow> bool" where
  \<comment> \<open>(month, day) falls before (month', day')\<close>
  "monthDayBefore m d m' d' = (m < m' \<or> (m = m' \<and> d < d'))"

definition rawAge :: "int \<Rightarrow> int \<Rightarrow> int" where
  \<comment> \<open>the age before it is floored at zero, on the day numbers of birth and of the date\<close>
  "rawAge nb n =
     YearFromDay n - YearFromDay nb -
     (if monthDayBefore (MonthFromDay n) (DateFromDay n) (MonthFromDay nb) (DateFromDay nb)
      then 1 else 0)"

definition dayOK :: "int \<Rightarrow> bool" where
  \<comment> \<open>the day numbers whose midnight is a time value a Date can hold\<close>
  "dayOK n = (- 100000000 \<le> n \<and> n \<le> 100000000)"

definition weeksOf :: "int \<Rightarrow> int" where
  \<comment> \<open>whole weeks in a span of milliseconds, 0 for a span that is not positive\<close>
  "weeksOf diff = (if diff \<le> 0 then 0 else diff div msPerWeek)"

definition midnightOf :: "int \<Rightarrow> int" where
  \<comment> \<open>the time value that \<open>startOfDay\<close> builds from the fields of the time value \<open>t\<close>\<close>
  "midnightOf t =
     MakeDay (MakeFullYear (YearFromDay (Day t))) (MonthFromDay (Day t)) (DateFromDay (Day t))
       * msPerDay"

definition birthdayTime :: "int \<Rightarrow> int \<Rightarrow> int" where
  \<comment> \<open>the time value that \<open>lastBirthday\<close> builds from the fields of birth and the age \<open>a\<close>\<close>
  "birthdayTime b a =
     MakeDay (MakeFullYear (YearFromDay (Day b) + a)) (MonthFromDay (Day b))
       (DateFromDay (Day b)) * msPerDay"

definition roundTrips :: "int \<Rightarrow> int \<Rightarrow> int \<Rightarrow> bool" where
  \<comment> \<open>the last test of \<open>isValidDateInput\<close>, on the numbers of the three pieces\<close>
  "roundTrips y m d =
     (let dt = new_Date (Num y) (js_sub (Num m) (Num 1)) (Num d)
      in js_eq (getFullYear dt) (Num y) \<and> js_eq (getMonth dt) (js_sub (Num m) (Num 1))
         \<and> js_eq (getDate dt) (Num d))"

definition digitChar :: "int \<Rightarrow> char" where
  \<comment> \<open>the character of a digit from 0 to 9\<close>
  "digitChar k = ''0123456789'' ! nat k"

definition pad2 :: "int \<Rightarrow> string" where
  "pad2 n = [digitChar (n div 10), digitChar (n mod 10)]"

definition pad4 :: "int \<Rightarrow> string" where
  "pad4 n = [digitChar (n div 1000), digitChar (n div 100 mod 10), digitChar (n div 10 mod 10),
             digitChar (n mod 10)]"

definition formatDate :: "int \<Rightarrow> int \<Rightarrow> int \<Rightarrow> string" where
  \<comment> \<open>the text \<open>YYYY-MM-DD\<close> of a year up to 9999, a month and a day up to 99\<close>
  "formatDate y m d = pad4 y @ ''-'' @ pad2 m @ ''-'' @ pad2 d"


section \<open>Year arithmetic\<close>

lemma div_bounds:
  fixes a k :: int
  assumes k: "0 < k"
  shows "k * (a div k) \<le> a" and "a < k * (a div k) + k"
proof -
  have e: "a = k * (a div k) + a mod k" by simp
  have "0 \<le> a mod k" "a mod k < k" using k by simp_all
  with e show "k * (a div k) \<le> a" and "a < k * (a div k) + k" by linarith+
qed

lemma pos4: "(0::int) < 4" and pos100: "(0::int) < 100" and pos400: "(0::int) < 400"
  and pos146097: "(0::int) < 146097"
  by simp_all

lemma div_shift:
  fixes a k c :: int
  assumes k: "0 < k"
  shows "(a - k * c) div k = a div k - c"
proof -
  have e: "a - k * c = k * (a div k - c) + a mod k"
    by (simp add: algebra_simps)
  have r: "0 \<le> a mod k" "a mod k < k" using k by simp_all
  show ?thesis by (rule int_div_pos_eq[OF e r])
qed

lemma div_pred:
  fixes a k :: int
  assumes k: "0 < k"
  shows "(a - 1) div k = a div k - (if a mod k = 0 then 1 else 0)"
proof (cases "a mod k = 0")
  case True
  have e: "a - 1 = k * (a div k - 1) + (k - 1)"
    using True div_mult_mod_eq[of a k] by (simp add: algebra_simps)
  have "(a - 1) div k = a div k - 1"
    by (rule int_div_pos_eq[OF e]) (use k in simp_all)
  with True show ?thesis by simp
next
  case False
  have e: "a - 1 = k * (a div k) + (a mod k - 1)" by simp
  have "0 \<le> a mod k" using k by simp
  with False have p: "0 \<le> a mod k - 1" by linarith
  have q: "a mod k - 1 < k" using pos_mod_bound[OF k, of a] by linarith
  have "(a - 1) div k = a div k" by (rule int_div_pos_eq[OF e p q])
  with False show ?thesis by simp
qed

lemma mod_100_4: "y mod 100 = 0 \<Longrightarrow> y mod 4 = 0" for y :: int
  by presburger

lemma mod_400_100: "y mod 400 = 0 \<Longrightarrow> y mod 100 = 0" for y :: int
  by presburger

lemma DayFromYear_alt:
  "DayFromYear y =
     365 * (y - 1970) + ((y - 1) div 4 - 492) - ((y - 1) div 100 - 19) + ((y - 1) div 400 - 4)"
proof -
  have a: "(y - 1969) div 4 = (y - 1) div 4 - 492"
    using div_shift[OF pos4, of "y - 1" 492] by simp
  have b: "(y - 1901) div 100 = (y - 1) div 100 - 19"
    using div_shift[OF pos100, of "y - 1" 19] by simp
  have c: "(y - 1601) div 400 = (y - 1) div 400 - 4"
    using div_shift[OF pos400, of "y - 1" 4] by simp
  show ?thesis unfolding DayFromYear_def a b c by simp
qed

lemma leap_step:
  fixes q4 q100 q400 y :: int
  assumes "p400 \<Longrightarrow> p100" "p100 \<Longrightarrow> p4"
  shows "365 * (y + 1 - 1970) + (q4 - 492) - (q100 - 19) + (q400 - 4) =
         365 * (y - 1970) + (q4 - (if p4 then 1 else 0) - 492)
           - (q100 - (if p100 then 1 else 0) - 19) + (q400 - (if p400 then 1 else 0) - 4)
           + (if p4 \<and> (\<not> p100 \<or> p400) then 366 else 365)"
  using assms by (auto split: if_splits)

lemma DayFromYear_Suc:
  "DayFromYear (y + 1) = DayFromYear y + (if isLeapYear y then 366 else 365)"
proof -
  have a: "(y - 1) div 4 = y div 4 - (if y mod 4 = 0 then 1 else 0)"
    by (rule div_pred) simp
  have b: "(y - 1) div 100 = y div 100 - (if y mod 100 = 0 then 1 else 0)"
    by (rule div_pred) simp
  have c: "(y - 1) div 400 = y div 400 - (if y mod 400 = 0 then 1 else 0)"
    by (rule div_pred) simp
  have "DayFromYear (y + 1) =
      365 * (y + 1 - 1970) + (y div 4 - 492) - (y div 100 - 19) + (y div 400 - 4)"
    unfolding DayFromYear_alt by simp
  also have "\<dots> = 365 * (y - 1970) + (y div 4 - (if y mod 4 = 0 then 1 else 0) - 492)
           - (y div 100 - (if y mod 100 = 0 then 1 else 0) - 19)
           + (y div 400 - (if y mod 400 = 0 then 1 else 0) - 4)
           + (if y mod 4 = 0 \<and> (\<not> y mod 100 = 0 \<or> y mod 400 = 0) then 366 else 365)"
    by (rule leap_step) (erule mod_400_100, erule mod_100_4)
  also have "\<dots> = DayFromYear y + (if isLeapYear y then 366 else 365)"
    unfolding DayFromYear_alt isLeapYear_def a b c by simp
  finally show ?thesis .
qed

lemma lin_lower:
  fixes A B C x F :: int
  assumes "F = 365 * x + A - B + C"
    and "x + 1 < 4 * A + 4" and "100 * B \<le> x + 69" and "x + 369 < 400 * C + 400"
  shows "146097 * x - 800 \<le> 400 * F"
  using assms by linarith

lemma lin_upper:
  fixes A B C x F :: int
  assumes "F = 365 * x + A - B + C"
    and "4 * A \<le> x + 1" and "x + 69 < 100 * B + 100" and "400 * C \<le> x + 369"
  shows "400 * F \<le> 146097 * x + 800"
  using assms by linarith

lemma DayFromYear_lower: "146097 * (y - 1970) - 800 \<le> 400 * DayFromYear y"
proof (rule lin_lower)
  show "DayFromYear y =
      365 * (y - 1970) + (y - 1969) div 4 - (y - 1901) div 100 + (y - 1601) div 400"
    by (rule DayFromYear_def)
  show "y - 1970 + 1 < 4 * ((y - 1969) div 4) + 4"
    using div_bounds(2)[OF pos4, of "y - 1969"] by simp
  show "100 * ((y - 1901) div 100) \<le> y - 1970 + 69"
    using div_bounds(1)[OF pos100, of "y - 1901"] by simp
  show "y - 1970 + 369 < 400 * ((y - 1601) div 400) + 400"
    using div_bounds(2)[OF pos400, of "y - 1601"] by simp
qed

lemma DayFromYear_upper: "400 * DayFromYear y \<le> 146097 * (y - 1970) + 800"
proof (rule lin_upper)
  show "DayFromYear y =
      365 * (y - 1970) + (y - 1969) div 4 - (y - 1901) div 100 + (y - 1601) div 400"
    by (rule DayFromYear_def)
  show "4 * ((y - 1969) div 4) \<le> y - 1970 + 1"
    using div_bounds(1)[OF pos4, of "y - 1969"] by simp
  show "y - 1970 + 69 < 100 * ((y - 1901) div 100) + 100"
    using div_bounds(2)[OF pos100, of "y - 1901"] by simp
  show "400 * ((y - 1601) div 400) \<le> y - 1970 + 369"
    using div_bounds(1)[OF pos400, of "y - 1601"] by simp
qed

lemma DayFromYear_mono: "y \<le> y' \<Longrightarrow> DayFromYear y \<le> DayFromYear y'"
proof (induction "nat (y' - y)" arbitrary: y')
  case 0
  then show ?case by simp
next
  case (Suc k)
  from Suc.hyps(2) Suc.prems have "k = nat (y' - 1 - y)" "y \<le> y' - 1" by linarith+
  then have "DayFromYear y \<le> DayFromYear (y' - 1)" by (rule Suc.hyps(1))
  moreover have "DayFromYear (y' - 1) \<le> DayFromYear y'"
    using DayFromYear_Suc[of "y' - 1"] by (simp split: if_splits)
  ultimately show ?case by linarith
qed

lemma DayFromYear_less: "y < y' \<Longrightarrow> DayFromYear y + 365 \<le> DayFromYear y'"
  using DayFromYear_mono[of "y + 1" y'] DayFromYear_Suc[of y] by (simp split: if_splits)

lemma YearFromDay_low: "DayFromYear (YearFromDay n) \<le> n"
proof -
  define q where "q = (400 * n) div 146097"
  define F where "F = DayFromYear (1970 + q - 1)"
  have "146097 * q \<le> 400 * n"
    unfolding q_def by (rule div_bounds(1)[OF pos146097])
  moreover have "400 * F \<le> 146097 * q - 146097 + 800"
    unfolding F_def using DayFromYear_upper[of "1970 + q - 1"] by (simp add: algebra_simps)
  ultimately have "F \<le> n" by linarith
  then show ?thesis
    unfolding YearFromDay_def q_def[symmetric] F_def Let_def by simp
qed

lemma YearFromDay_high: "n < DayFromYear (YearFromDay n + 1)"
proof -
  define q where "q = (400 * n) div 146097"
  define F where "F = DayFromYear (1970 + q + 1 + 1)"
  have "400 * n < 146097 * q + 146097"
    unfolding q_def by (rule div_bounds(2)[OF pos146097])
  moreover have "146097 * q + 292194 - 800 \<le> 400 * F"
    unfolding F_def using DayFromYear_lower[of "1970 + q + 1 + 1"] by (simp add: algebra_simps)
  ultimately have "n < F" by linarith
  then show ?thesis
    unfolding YearFromDay_def q_def[symmetric] F_def Let_def by auto
qed

lemma YearFromDay_unique:
  assumes "DayFromYear y \<le> n" and "n < DayFromYear (y + 1)"
  shows "YearFromDay n = y"
proof (rule ccontr)
  assume ne: "YearFromDay n \<noteq> y"
  show False
  proof (cases "YearFromDay n < y")
    case True
    then have "DayFromYear (YearFromDay n + 1) \<le> DayFromYear y"
      by (intro DayFromYear_mono) simp
    with YearFromDay_high[of n] assms show False by linarith
  next
    case False
    with ne have "y + 1 \<le> YearFromDay n" by simp
    then have "DayFromYear (y + 1) \<le> DayFromYear (YearFromDay n)"
      by (rule DayFromYear_mono)
    with YearFromDay_low[of n] assms show False by linarith
  qed
qed

lemma YearFromDay_mono: "n \<le> n' \<Longrightarrow> YearFromDay n \<le> YearFromDay n'"
proof (rule ccontr)
  assume le: "n \<le> n'" and "\<not> YearFromDay n \<le> YearFromDay n'"
  then have "YearFromDay n' + 1 \<le> YearFromDay n" by simp
  then have "DayFromYear (YearFromDay n' + 1) \<le> DayFromYear (YearFromDay n)"
    by (rule DayFromYear_mono)
  with YearFromDay_high[of n'] YearFromDay_low[of n] le show False by linarith
qed

lemma DayWithinYear_range:
  "0 \<le> DayWithinYear n"
  "DayWithinYear n < (if isLeapYear (YearFromDay n) then 366 else 365)"
  using YearFromDay_low[of n] YearFromDay_high[of n] DayFromYear_Suc[of "YearFromDay n"]
  unfolding DayWithinYear_def by (simp_all split: if_splits)


section \<open>Months and days within a year\<close>

lemma month_enum:
  fixes m :: int
  assumes "0 \<le> m" and "m \<le> 11"
  shows "m = 0 \<or> m = 1 \<or> m = 2 \<or> m = 3 \<or> m = 4 \<or> m = 5 \<or> m = 6 \<or> m = 7 \<or> m = 8
         \<or> m = 9 \<or> m = 10 \<or> m = 11"
proof -
  have a: "m = 0 \<or> m = 1 \<or> m = 2 \<or> m = 3 \<or> 4 \<le> m" using assms(1) by linarith
  have b: "4 \<le> m \<Longrightarrow> m = 4 \<or> m = 5 \<or> m = 6 \<or> m = 7 \<or> 8 \<le> m" by linarith
  have c: "8 \<le> m \<Longrightarrow> m = 8 \<or> m = 9 \<or> m = 10 \<or> m = 11" using assms(2) by linarith
  from a b c show ?thesis by blast
qed

lemma monthStart_next:
  assumes "0 \<le> m" and "m \<le> 11"
  shows "monthStart leap (m + 1) = monthStart leap m + DaysInMonth leap m"
  using month_enum[OF assms] by (elim disjE) (simp_all add: monthStart_def DaysInMonth_def)

lemma MonthInYear_range: "0 \<le> MonthInYear leap dw \<and> MonthInYear leap dw \<le> 11"
  unfolding MonthInYear_def Let_def by simp

lemma MonthInYear_bounds:
  assumes "0 \<le> dw" and "dw < (if leap then 366 else 365)"
  shows "monthStart leap (MonthInYear leap dw) \<le> dw"
    and "dw < monthStart leap (MonthInYear leap dw) + DaysInMonth leap (MonthInYear leap dw)"
  using assms unfolding MonthInYear_def Let_def monthStart_def DaysInMonth_def
  by (simp_all split: if_splits)

lemma MonthInYear_unique:
  assumes "0 \<le> m" and "m \<le> 11" and "1 \<le> d" and "d \<le> DaysInMonth leap m"
  shows "MonthInYear leap (monthStart leap m + d - 1) = m"
  using month_enum[OF assms(1,2)] assms(3,4)
  by (elim disjE) (simp_all add: monthStart_def DaysInMonth_def MonthInYear_def split: if_splits)

lemma monthStart_mono:
  assumes "0 \<le> m1" and "m1 \<le> m2" and "m2 \<le> 12"
  shows "monthStart leap m1 \<le> monthStart leap m2"
proof -
  have "0 \<le> k \<Longrightarrow> m1 + k \<le> 12 \<Longrightarrow> monthStart leap m1 \<le> monthStart leap (m1 + k)" for k
  proof (induction k rule: int_ge_induct)
    case base
    then show ?case by simp
  next
    case (step i)
    have "monthStart leap (m1 + i + 1) = monthStart leap (m1 + i) + DaysInMonth leap (m1 + i)"
      by (rule monthStart_next) (use step assms in linarith)+
    moreover have "0 \<le> DaysInMonth leap (m1 + i)" by (simp add: DaysInMonth_def)
    moreover have "monthStart leap m1 \<le> monthStart leap (m1 + i)"
      using step by simp
    ultimately show ?case by (simp add: add.assoc)
  qed
  from this[of "m2 - m1"] assms show ?thesis by simp
qed

section \<open>Day numbers and the fields of a date\<close>

lemma Day_midnight: "Day (n * msPerDay) = n"
  unfolding Day_def msPerDay_def by simp

lemma Day_within:
  assumes "0 \<le> r" and "r < msPerDay"
  shows "Day (n * msPerDay + r) = n"
proof -
  have e: "n * msPerDay + r = msPerDay * n + r" by simp
  show ?thesis unfolding Day_def by (rule int_div_pos_eq[OF e assms])
qed

lemma Day_mono: "t \<le> t' \<Longrightarrow> Day t \<le> Day t'"
  unfolding Day_def msPerDay_def by (rule zdiv_mono1) simp_all

lemma Day_bounds: "Day t * msPerDay \<le> t" "t < Day t * msPerDay + msPerDay"
proof -
  have p: "0 < msPerDay" by (simp add: msPerDay_def)
  show "Day t * msPerDay \<le> t" using div_bounds(1)[OF p, of t] by (simp add: Day_def mult.commute)
  show "t < Day t * msPerDay + msPerDay" using div_bounds(2)[OF p, of t] by (simp add: Day_def mult.commute)
qed

lemma MonthFromDay_range: "0 \<le> MonthFromDay n" "MonthFromDay n \<le> 11"
  using MonthInYear_range unfolding MonthFromDay_def by simp_all

lemma DateFromDay_range:
  "1 \<le> DateFromDay n"
  "DateFromDay n \<le> DaysInMonth (isLeapYear (YearFromDay n)) (MonthFromDay n)"
  using MonthInYear_bounds[OF DayWithinYear_range, of n]
  unfolding DateFromDay_def MonthFromDay_def by simp_all

lemma MakeDay_simple:
  assumes "0 \<le> m" and "m \<le> 11"
  shows "MakeDay y m d = DayFromYear y + monthStart (isLeapYear y) m + d - 1"
proof -
  have "m div 12 = 0" "m mod 12 = m" using assms by simp_all
  then show ?thesis unfolding MakeDay_def Let_def by simp
qed

lemma MakeDay_fields: "MakeDay (YearFromDay n) (MonthFromDay n) (DateFromDay n) = n"
  unfolding MakeDay_simple[OF MonthFromDay_range]
  by (simp add: DateFromDay_def DayWithinYear_def)

lemma dayInYear_lt:
  assumes "0 \<le> m" and "m \<le> 11" and "d \<le> DaysInMonth leap m"
  shows "monthStart leap m + d - 1 < (if leap then 366 else 365)"
proof -
  have "monthStart leap (m + 1) \<le> monthStart leap 12"
    by (rule monthStart_mono) (use assms in simp_all)
  moreover have "monthStart leap 12 = (if leap then 366 else 365)"
    by (simp add: monthStart_def)
  ultimately show ?thesis using monthStart_next[OF assms(1,2), of leap] assms(3) by linarith
qed

lemma monthStart_nonneg: "0 \<le> monthStart leap m"
  unfolding monthStart_def by simp

lemma fields_of_MakeDay:
  assumes "0 \<le> m" and "m \<le> 11" and "1 \<le> d" and "d \<le> DaysInMonth (isLeapYear y) m"
  shows "YearFromDay (MakeDay y m d) = y"
    and "MonthFromDay (MakeDay y m d) = m"
    and "DateFromDay (MakeDay y m d) = d"
proof -
  let ?n = "MakeDay y m d"
  let ?dw = "monthStart (isLeapYear y) m + d - 1"
  have n: "?n = DayFromYear y + ?dw" unfolding MakeDay_simple[OF assms(1,2)] by simp
  have lo: "0 \<le> ?dw" using monthStart_nonneg[of "isLeapYear y" m] assms(3) by linarith
  have hi: "?dw < (if isLeapYear y then 366 else 365)" by (rule dayInYear_lt[OF assms(1,2,4)])
  show y: "YearFromDay ?n = y"
    by (rule YearFromDay_unique) (use n lo hi DayFromYear_Suc[of y] in \<open>simp_all split: if_splits\<close>)
  have dw: "DayWithinYear ?n = ?dw" unfolding DayWithinYear_def y using n by simp
  show m: "MonthFromDay ?n = m"
    unfolding MonthFromDay_def y dw by (rule MonthInYear_unique[OF assms])
  show "DateFromDay ?n = d"
    unfolding DateFromDay_def m y dw by simp
qed

section \<open>Numbers and getters on values\<close>

lemma js_ops [simp]:
  "js_sub (Num a) (Num b) = Num (a - b)"
  "js_add (Num a) (Num b) = Num (a + b)"
  "js_lt (Num a) (Num b) = (a < b)"
  "js_le (Num a) (Num b) = (a \<le> b)"
  "js_eq (Num a) (Num b) = (a = b)"
  "falsy (Num a) = (a = 0)"
  "Math_max (Num a) (Num b) = Num (max a b)"
  "Math_min (Num a) (Num b) = Num (min a b)"
  "Math_floor_quot (Num a) k = Num (a div k)"
  by (simp_all add: js_sub_def js_add_def js_lt_def js_le_def js_eq_def falsy_def
      Math_max_def Math_min_def Math_floor_quot_def)

lemma getters [simp]:
  "getTime (DateValue t) = Num t"
  "getFullYear (DateValue t) = Num (YearFromDay (Day t))"
  "getMonth (DateValue t) = Num (MonthFromDay (Day t))"
  "getDate (DateValue t) = Num (DateFromDay (Day t))"
  by (simp_all add: getTime_def getFullYear_def getMonth_def getDate_def)

section \<open>Order of (month, day) pairs and of days within a year\<close>

lemma DaysInMonth_leap: "DaysInMonth leap' m \<le> DaysInMonth leap m + 1"
  unfolding DaysInMonth_def by simp

lemma DaysInMonth_pos: "1 \<le> DaysInMonth leap m"
  unfolding DaysInMonth_def by simp

lemma monthStart_leap: "monthStart leap m \<le> monthStart leap' m + 1"
  "monthStart leap m \<le> monthStart True m" "monthStart False m \<le> monthStart leap m"
  unfolding monthStart_def by simp_all

lemma dayInYear_le:
  assumes m1: "0 \<le> m1" and "m1 \<le> 11" and m2: "m2 \<le> 11"
    and d1: "d1 \<le> DaysInMonth leap' m1" and d2: "1 \<le> d2"
    and nb: "\<not> monthDayBefore m2 d2 m1 d1"
  shows "monthStart leap m1 + d1 \<le> monthStart leap m2 + d2"
proof (cases "m1 = m2")
  case True
  with nb show ?thesis by (simp add: monthDayBefore_def)
next
  case False
  with nb have lt: "m1 + 1 \<le> m2" by (simp add: monthDayBefore_def)
  have "monthStart leap (m1 + 1) \<le> monthStart leap m2"
    by (rule monthStart_mono) (use m1 lt m2 in simp_all)
  moreover have "monthStart leap (m1 + 1) = monthStart leap m1 + DaysInMonth leap m1"
    by (rule monthStart_next) fact+
  moreover have "d1 \<le> DaysInMonth leap m1 + 1"
    using d1 DaysInMonth_leap[of leap' m1 leap] by linarith
  ultimately show ?thesis using d2 by linarith
qed

lemma dayInYear_less:
  assumes m1: "0 \<le> m1" and "m1 \<le> 11" and m2: "m2 \<le> 11"
    and d1: "d1 \<le> DaysInMonth leap m1" and d2: "1 \<le> d2"
    and b: "monthDayBefore m1 d1 m2 d2"
  shows "monthStart leap m1 + d1 < monthStart leap m2 + d2"
proof (cases "m1 = m2")
  case True
  with b show ?thesis by (simp add: monthDayBefore_def)
next
  case False
  with b have lt: "m1 + 1 \<le> m2" by (simp add: monthDayBefore_def)
  have "monthStart leap (m1 + 1) \<le> monthStart leap m2"
    by (rule monthStart_mono) (use m1 lt m2 in simp_all)
  moreover have "monthStart leap (m1 + 1) = monthStart leap m1 + DaysInMonth leap m1"
    by (rule monthStart_next) fact+
  ultimately show ?thesis using d1 d2 by linarith
qed

lemma day_number: "n = DayFromYear (YearFromDay n) + monthStart (isLeapYear (YearFromDay n)) (MonthFromDay n) + DateFromDay n - 1"
  using MakeDay_fields[of n] unfolding MakeDay_simple[OF MonthFromDay_range] by simp

lemma same_year_order:
  assumes le: "n \<le> n'" and y: "YearFromDay n = YearFromDay n'"
  shows "\<not> monthDayBefore (MonthFromDay n') (DateFromDay n') (MonthFromDay n) (DateFromDay n)"
proof
  assume b: "monthDayBefore (MonthFromDay n') (DateFromDay n') (MonthFromDay n) (DateFromDay n)"
  let ?L = "isLeapYear (YearFromDay n')"
  have "monthStart ?L (MonthFromDay n') + DateFromDay n' < monthStart ?L (MonthFromDay n) + DateFromDay n"
    by (rule dayInYear_less[OF MonthFromDay_range MonthFromDay_range(2) DateFromDay_range(2) DateFromDay_range(1) b])
  with day_number[of n] day_number[of n'] y le show False by simp
qed

section \<open>The age and the birthday as day numbers\<close>

lemma getAgeYears_value:
  "getAgeYears (DateValue b) (DateValue t) = Num (max 0 (rawAge (Day b) (Day t)))"
  unfolding getAgeYears_def rawAge_def Let_def monthDayBefore_def by simp

lemma monthDayBefore_trans:
  "\<not> monthDayBefore m' d' m d \<Longrightarrow> monthDayBefore m' d' bm bd \<Longrightarrow> monthDayBefore m d bm bd"
  unfolding monthDayBefore_def by linarith

lemma rawAge_mono:
  assumes "n \<le> n'"
  shows "rawAge nb n \<le> rawAge nb n'"
proof (cases "YearFromDay n = YearFromDay n'")
  case True
  have "monthDayBefore (MonthFromDay n') (DateFromDay n') (MonthFromDay nb) (DateFromDay nb)
    \<Longrightarrow> monthDayBefore (MonthFromDay n) (DateFromDay n) (MonthFromDay nb) (DateFromDay nb)"
    by (rule monthDayBefore_trans[OF same_year_order[OF assms True]])
  then show ?thesis unfolding rawAge_def True by auto
next
  case False
  with YearFromDay_mono[OF assms] have "YearFromDay n + 1 \<le> YearFromDay n'" by simp
  then show ?thesis unfolding rawAge_def by (simp split: if_splits)
qed

lemma dayInYear_lt':
  assumes "0 \<le> m" and "m \<le> 11" and "d \<le> DaysInMonth leap' m"
  shows "monthStart leap m + d - 1 < (if leap then 366 else 365)"
proof (cases "m = 1")
  case True
  with assms(3) show ?thesis by (simp add: monthStart_def DaysInMonth_def split: if_splits)
next
  case False
  then have "DaysInMonth leap' m = DaysInMonth leap m" by (simp add: DaysInMonth_def)
  with assms(3) have "d \<le> DaysInMonth leap m" by simp
  then show ?thesis by (rule dayInYear_lt[OF assms(1,2)])
qed

lemma birthday_in_year:
  "DayFromYear y \<le> MakeDay y (MonthFromDay nb) (DateFromDay nb)"
  "MakeDay y (MonthFromDay nb) (DateFromDay nb) < DayFromYear (y + 1)"
  "YearFromDay (MakeDay y (MonthFromDay nb) (DateFromDay nb)) = y"
proof -
  let ?n = "MakeDay y (MonthFromDay nb) (DateFromDay nb)"
  let ?dw = "monthStart (isLeapYear y) (MonthFromDay nb) + DateFromDay nb - 1"
  have n: "?n = DayFromYear y + ?dw" unfolding MakeDay_simple[OF MonthFromDay_range] by simp
  have lo: "0 \<le> ?dw"
    using monthStart_nonneg[of "isLeapYear y" "MonthFromDay nb"] DateFromDay_range(1)[of nb]
    by linarith
  have hi: "?dw < (if isLeapYear y then 366 else 365)"
    by (rule dayInYear_lt'[OF MonthFromDay_range DateFromDay_range(2)])
  show a: "DayFromYear y \<le> ?n" using n lo by simp
  show b: "?n < DayFromYear (y + 1)" using n hi DayFromYear_Suc[of y] by (simp split: if_splits)
  show "YearFromDay ?n = y" by (rule YearFromDay_unique[OF a b])
qed

lemma birthday_after_birth:
  assumes "0 \<le> a"
  shows "nb \<le> MakeDay (YearFromDay nb + a) (MonthFromDay nb) (DateFromDay nb)"
proof (cases "a = 0")
  case True
  then show ?thesis using MakeDay_fields[of nb] by simp
next
  case False
  with assms have "YearFromDay nb < YearFromDay nb + a" by simp
  then have "DayFromYear (YearFromDay nb) + 365 \<le> DayFromYear (YearFromDay nb + a)"
    by (rule DayFromYear_less)
  moreover have "monthStart (isLeapYear (YearFromDay nb)) (MonthFromDay nb)
      \<le> monthStart (isLeapYear (YearFromDay nb + a)) (MonthFromDay nb) + 1"
    by (rule monthStart_leap(1))
  ultimately show ?thesis
    using day_number[of nb] unfolding MakeDay_simple[OF MonthFromDay_range] by linarith
qed

lemma birthday_before_day:
  assumes "0 \<le> rawAge nb n"
  shows "MakeDay (YearFromDay nb + rawAge nb n) (MonthFromDay nb) (DateFromDay nb) \<le> n"
proof (cases "monthDayBefore (MonthFromDay n) (DateFromDay n) (MonthFromDay nb) (DateFromDay nb)")
  case True
  then have y: "YearFromDay nb + rawAge nb n + 1 = YearFromDay n" by (simp add: rawAge_def)
  have "MakeDay (YearFromDay nb + rawAge nb n) (MonthFromDay nb) (DateFromDay nb)
      < DayFromYear (YearFromDay nb + rawAge nb n + 1)"
    by (rule birthday_in_year(2))
  with YearFromDay_low[of n] show ?thesis unfolding y by linarith
next
  case False
  then have y: "YearFromDay nb + rawAge nb n = YearFromDay n" by (simp add: rawAge_def)
  have "monthStart (isLeapYear (YearFromDay n)) (MonthFromDay nb) + DateFromDay nb
      \<le> monthStart (isLeapYear (YearFromDay n)) (MonthFromDay n) + DateFromDay n"
    by (rule dayInYear_le[OF MonthFromDay_range MonthFromDay_range(2) DateFromDay_range(2)
          DateFromDay_range(1) False])
  then show ?thesis
    using day_number[of n] unfolding y MakeDay_simple[OF MonthFromDay_range] by linarith
qed

lemma dayOK_validTime:
  assumes "dayOK n"
  shows "validTime (n * msPerDay)"
proof -
  from assms have "- 100000000 \<le> n" "n \<le> 100000000" by (simp_all add: dayOK_def)
  then have "- 8640000000000000 \<le> n * 86400000" "n * 86400000 \<le> 8640000000000000"
    by linarith+
  then show ?thesis unfolding validTime_def maxTime_def msPerDay_def by (simp add: abs_le_iff)
qed

lemma TimeClip_valid: "validTime t \<Longrightarrow> TimeClip t = DateValue t"
  unfolding validTime_def TimeClip_def by simp

lemma TimeClip_day: "dayOK n \<Longrightarrow> TimeClip (n * msPerDay) = DateValue (n * msPerDay)"
  by (rule TimeClip_valid[OF dayOK_validTime])

lemma validTime_dayOK:
  assumes "validTime t"
  shows "dayOK (Day t)"
proof -
  from assms have t: "- 8640000000000000 \<le> t" "t \<le> 8640000000000000"
    by (simp_all add: validTime_def maxTime_def)
  have "Day t * 86400000 \<le> t" "t < Day t * 86400000 + 86400000"
    using Day_bounds[of t] by (simp_all add: msPerDay_def)
  with t show ?thesis unfolding dayOK_def by linarith
qed

lemma DayFromYear_flat:
  "146097 * y - 287811890 \<le> 400 * DayFromYear y"
  "400 * DayFromYear y \<le> 146097 * y - 287810290"
  using DayFromYear_lower[of y] DayFromYear_upper[of y] by (simp_all add: algebra_simps)

lemma monthStart_le: "monthStart leap m \<le> 366"
  unfolding monthStart_def by simp

lemma two_digit_year_dayOK:
  assumes "0 \<le> y" and "y \<le> 99" and "0 \<le> m" and "m \<le> 11" and "1 \<le> d" and "d \<le> 31"
  shows "dayOK (MakeDay (1900 + y) m d)"
proof -
  define F where "F = DayFromYear (1900 + y)"
  have "146097 * y + 277584300 - 287811890 \<le> 400 * F" "400 * F \<le> 146097 * y + 277584300 - 287810290"
    using DayFromYear_flat[of "1900 + y"] by (simp_all add: F_def algebra_simps)
  with assms(1,2) have "- 30000 \<le> F" "F \<le> 20000" by linarith+
  then show ?thesis
    unfolding MakeDay_simple[OF assms(3,4)] F_def[symmetric] dayOK_def
    using monthStart_nonneg[of "isLeapYear (1900 + y)" m] monthStart_le[of "isLeapYear (1900 + y)" m] assms(5,6)
    by linarith
qed

lemma DateFromDay_le_31: "DateFromDay n \<le> 31"
  using DateFromDay_range(2)[of n] by (simp add: DaysInMonth_def split: if_splits)

lemma new_Date_fields:
  assumes "0 \<le> y \<and> y \<le> 99 \<or> dayOK (MakeDay y (MonthFromDay nb) (DateFromDay nb))"
  shows "new_Date (Num y) (Num (MonthFromDay nb)) (Num (DateFromDay nb)) =
         DateValue (MakeDay (MakeFullYear y) (MonthFromDay nb) (DateFromDay nb) * msPerDay)"
    and "dayOK (MakeDay (MakeFullYear y) (MonthFromDay nb) (DateFromDay nb))"
proof -
  show ok: "dayOK (MakeDay (MakeFullYear y) (MonthFromDay nb) (DateFromDay nb))"
  proof (cases "0 \<le> y \<and> y \<le> 99")
    case True
    then have "dayOK (MakeDay (1900 + y) (MonthFromDay nb) (DateFromDay nb))"
      by (intro two_digit_year_dayOK MonthFromDay_range DateFromDay_range(1) DateFromDay_le_31) simp_all
    with True show ?thesis by (simp add: MakeFullYear_def)
  next
    case False
    with assms show ?thesis by (auto simp: MakeFullYear_def)
  qed
  show "new_Date (Num y) (Num (MonthFromDay nb)) (Num (DateFromDay nb)) =
         DateValue (MakeDay (MakeFullYear y) (MonthFromDay nb) (DateFromDay nb) * msPerDay)"
    unfolding new_Date_def by (simp add: TimeClip_day[OF ok])
qed

lemma startOfDay_value:
  assumes "validTime t"
  shows "startOfDay (DateValue t) =
      DateValue (MakeDay (MakeFullYear (YearFromDay (Day t))) (MonthFromDay (Day t)) (DateFromDay (Day t)) * msPerDay)"
    and "dayOK (MakeDay (MakeFullYear (YearFromDay (Day t))) (MonthFromDay (Day t)) (DateFromDay (Day t)))"
proof -
  have ok: "0 \<le> YearFromDay (Day t) \<and> YearFromDay (Day t) \<le> 99
      \<or> dayOK (MakeDay (YearFromDay (Day t)) (MonthFromDay (Day t)) (DateFromDay (Day t)))"
    using validTime_dayOK[OF assms] by (simp add: MakeDay_fields)
  show "startOfDay (DateValue t) =
      DateValue (MakeDay (MakeFullYear (YearFromDay (Day t))) (MonthFromDay (Day t)) (DateFromDay (Day t)) * msPerDay)"
    unfolding startOfDay_def using new_Date_fields(1)[OF ok] by simp
  show "dayOK (MakeDay (MakeFullYear (YearFromDay (Day t))) (MonthFromDay (Day t)) (DateFromDay (Day t)))"
    by (rule new_Date_fields(2)[OF ok])
qed

lemma birthday_dayOK:
  assumes b: "dayOK nb" and n: "dayOK n"
  shows "dayOK (MakeDay (YearFromDay nb + max 0 (rawAge nb n)) (MonthFromDay nb) (DateFromDay nb))"
proof -
  let ?a = "max 0 (rawAge nb n)"
  let ?l = "MakeDay (YearFromDay nb + ?a) (MonthFromDay nb) (DateFromDay nb)"
  have lo: "nb \<le> ?l" by (rule birthday_after_birth) simp
  have hi: "?l \<le> max nb n"
  proof (cases "0 \<le> rawAge nb n")
    case True
    then have "?l \<le> n" using birthday_before_day[OF True] by (simp add: max_def)
    then show ?thesis by simp
  next
    case False
    then have "?a = 0" by simp
    then show ?thesis using MakeDay_fields[of nb] by simp
  qed
  from lo hi b n show ?thesis unfolding dayOK_def by (simp add: max_def split: if_splits)
qed

lemma lastBirthday_value:
  assumes "validTime b" and "validTime t"
  shows "lastBirthday (DateValue b) (DateValue t) =
      DateValue (MakeDay (MakeFullYear (YearFromDay (Day b) + max 0 (rawAge (Day b) (Day t))))
                   (MonthFromDay (Day b)) (DateFromDay (Day b)) * msPerDay)"
    and "dayOK (MakeDay (MakeFullYear (YearFromDay (Day b) + max 0 (rawAge (Day b) (Day t))))
                   (MonthFromDay (Day b)) (DateFromDay (Day b)))"
proof -
  let ?y = "YearFromDay (Day b) + max 0 (rawAge (Day b) (Day t))"
  have ok: "0 \<le> ?y \<and> ?y \<le> 99 \<or> dayOK (MakeDay ?y (MonthFromDay (Day b)) (DateFromDay (Day b)))"
    using birthday_dayOK[OF validTime_dayOK[OF assms(1)] validTime_dayOK[OF assms(2)]] by simp
  show "lastBirthday (DateValue b) (DateValue t) =
      DateValue (MakeDay (MakeFullYear ?y) (MonthFromDay (Day b)) (DateFromDay (Day b)) * msPerDay)"
    unfolding lastBirthday_def getAgeYears_value Let_def using new_Date_fields(1)[OF ok] by simp
  show "dayOK (MakeDay (MakeFullYear ?y) (MonthFromDay (Day b)) (DateFromDay (Day b)))"
    by (rule new_Date_fields(2)[OF ok])
qed

lemma weeksOf_nonneg: "0 \<le> weeksOf d"
  unfolding weeksOf_def msPerWeek_def by (simp add: pos_imp_zdiv_nonneg_iff)

lemma weeksOf_mono: "d \<le> d' \<Longrightarrow> weeksOf d \<le> weeksOf d'"
proof -
  assume le: "d \<le> d'"
  have "d div msPerWeek \<le> d' div msPerWeek"
    by (rule zdiv_mono1[OF le]) (simp add: msPerWeek_def)
  moreover have "0 < d' \<Longrightarrow> 0 \<le> d' div msPerWeek"
    by (simp add: msPerWeek_def pos_imp_zdiv_nonneg_iff)
  ultimately show ?thesis using le unfolding weeksOf_def by auto
qed

lemma startOfDay_midnightOf:
  "validTime t \<Longrightarrow> startOfDay (DateValue t) = DateValue (midnightOf t)"
  "validTime t \<Longrightarrow> validTime (midnightOf t)"
  unfolding midnightOf_def using startOfDay_value[of t] dayOK_validTime by simp_all

lemma lastBirthday_birthdayTime:
  assumes "validTime b" and "validTime t"
  shows "lastBirthday (DateValue b) (DateValue t) = DateValue (birthdayTime b (max 0 (rawAge (Day b) (Day t))))"
    and "validTime (birthdayTime b (max 0 (rawAge (Day b) (Day t))))"
  unfolding birthdayTime_def using lastBirthday_value[OF assms] dayOK_validTime by simp_all

lemma weeksSinceLastBirthday_value:
  assumes "validTime b" and "validTime t"
  shows "weeksSinceLastBirthday (DateValue b) (DateValue t) =
     Num (weeksOf (midnightOf t - midnightOf (birthdayTime b (max 0 (rawAge (Day b) (Day t))))))"
  unfolding weeksSinceLastBirthday_def Let_def
    lastBirthday_birthdayTime(1)[OF assms]
    startOfDay_midnightOf(1)[OF lastBirthday_birthdayTime(2)[OF assms]]
    startOfDay_midnightOf(1)[OF assms(2)]
  by (simp add: weeksOf_def)

lemma isWeekPassed_value:
  assumes "validTime b" and "validTime t"
  shows "isWeekPassed (Some (DateValue b)) (DateValue t) yi wi =
     (yi < max 0 (rawAge (Day b) (Day t)) \<or>
      yi = max 0 (rawAge (Day b) (Day t)) \<and>
      wi < min 52 (weeksOf (midnightOf t - midnightOf (birthdayTime b (max 0 (rawAge (Day b) (Day t)))))))"
  by (auto simp: isWeekPassed_def Let_def getAgeYears_value
      weeksSinceLastBirthday_value[OF assms] WEEKS_PER_YEAR_def)

lemma invalid_getters [simp]:
  "getTime InvalidDate = NaN" "getFullYear InvalidDate = NaN"
  "getMonth InvalidDate = NaN" "getDate InvalidDate = NaN"
  by (simp_all add: getTime_def getFullYear_def getMonth_def getDate_def)

lemma js_nan [simp]:
  "js_sub NaN x = NaN" "js_sub x NaN = NaN" "js_lt NaN x = False" "js_lt x NaN = False"
  "js_eq NaN x = False" "js_eq x NaN = False" "Math_max x NaN = NaN" "Math_min x NaN = NaN"
  "js_le NaN x = False" "Math_floor_quot NaN k = NaN" "js_add NaN x = NaN" "js_add x NaN = NaN"
  by (simp_all add: js_sub_def js_lt_def js_eq_def Math_max_def Math_min_def js_le_def
      Math_floor_quot_def js_add_def split: jsnum.splits)

lemma getAgeYears_invalid: "getAgeYears InvalidDate now = NaN"
  unfolding getAgeYears_def Let_def by simp

lemma new_Date_NaN [simp]: "new_Date NaN m d = InvalidDate"
  unfolding new_Date_def by simp

lemma weeksSinceLastBirthday_invalid: "weeksSinceLastBirthday InvalidDate now = NaN"
  unfolding weeksSinceLastBirthday_def lastBirthday_def startOfDay_def Let_def by simp

section \<open>The elapsed test of a cell\<close>

text \<open>
  Claim C1. For a birth date and an observation instant that are Dates with a time value,
  the age and the weeks since the last birthday are numbers \<open>a\<close> and \<open>w\<close>, and
  \<open>isWeekPassed\<close> answers true for every coordinate with \<open>yearIndex < a\<close>, false for every
  coordinate with \<open>yearIndex > a\<close>, and \<open>weekIndex < min 52 w\<close> on the row \<open>yearIndex = a\<close>.
  Without a birth date (null, or an Invalid Date) it answers false for every coordinate.
\<close>

theorem isWeekPassed_cases:
  assumes "validTime b" and "validTime t"
  shows "\<exists>a w. getAgeYears (DateValue b) (DateValue t) = Num a
          \<and> weeksSinceLastBirthday (DateValue b) (DateValue t) = Num w
          \<and> (\<forall>yi wi. isWeekPassed (Some (DateValue b)) (DateValue t) yi wi =
                (if yi < a then True else if a < yi then False else wi < min 52 w))
          \<and> (\<forall>yi wi. isWeekPassed None (DateValue t) yi wi = False)
          \<and> (\<forall>yi wi. isWeekPassed (Some InvalidDate) (DateValue t) yi wi = False)"
proof (intro exI conjI allI)
  show "getAgeYears (DateValue b) (DateValue t) = Num (max 0 (rawAge (Day b) (Day t)))"
    by (rule getAgeYears_value)
  show "weeksSinceLastBirthday (DateValue b) (DateValue t) =
     Num (weeksOf (midnightOf t - midnightOf (birthdayTime b (max 0 (rawAge (Day b) (Day t))))))"
    by (rule weeksSinceLastBirthday_value[OF assms])
  show "isWeekPassed (Some (DateValue b)) (DateValue t) yi wi =
      (if yi < max 0 (rawAge (Day b) (Day t)) then True
       else if max 0 (rawAge (Day b) (Day t)) < yi then False
       else wi < min 52 (weeksOf (midnightOf t - midnightOf (birthdayTime b (max 0 (rawAge (Day b) (Day t)))))))"
    for yi wi
    unfolding isWeekPassed_value[OF assms] by auto
  show "isWeekPassed None (DateValue t) yi wi = False" for yi wi
    by (simp add: isWeekPassed_def)
  show "isWeekPassed (Some InvalidDate) (DateValue t) yi wi = False" for yi wi
    by (simp add: isWeekPassed_def getAgeYears_invalid weeksSinceLastBirthday_invalid Let_def)
qed

theorem isWeekPassed_cases_witness:
  "validTime 946684800000 \<and> validTime 1786000000000 \<and>
   (\<exists>a w. getAgeYears (DateValue 946684800000) (DateValue 1786000000000) = Num a
          \<and> weeksSinceLastBirthday (DateValue 946684800000) (DateValue 1786000000000) = Num w
          \<and> (\<forall>yi wi. isWeekPassed (Some (DateValue 946684800000)) (DateValue 1786000000000) yi wi =
                (if yi < a then True else if a < yi then False else wi < min 52 w))
          \<and> (\<forall>yi wi. isWeekPassed None (DateValue 1786000000000) yi wi = False)
          \<and> (\<forall>yi wi. isWeekPassed (Some InvalidDate) (DateValue 1786000000000) yi wi = False))"
proof -
  have a: "validTime 946684800000" and b: "validTime 1786000000000"
    by (simp_all add: validTime_def maxTime_def)
  from a b isWeekPassed_cases[OF a b] show ?thesis by simp
qed

lemma rawAge_self: "rawAge n n = 0"
  unfolding rawAge_def monthDayBefore_def by simp

lemma rawAge_nonneg: "nb \<le> n \<Longrightarrow> 0 \<le> rawAge nb n"
  using rawAge_mono[of nb n nb] rawAge_self[of nb] by simp

lemma monthStart_zero: "0 \<le> m \<Longrightarrow> monthStart leap m = 0 \<Longrightarrow> m = 0"
  unfolding monthStart_def by (simp split: if_splits)

lemma rawAge_anniversary:
  "rawAge nb (MakeDay (YearFromDay nb + k) (MonthFromDay nb) (DateFromDay nb)) = k"
proof -
  let ?A = "MakeDay (YearFromDay nb + k) (MonthFromDay nb) (DateFromDay nb)"
  let ?L = "isLeapYear (YearFromDay nb + k)"
  have y: "YearFromDay ?A = YearFromDay nb + k" by (rule birthday_in_year(3))
  have "\<not> monthDayBefore (MonthFromDay ?A) (DateFromDay ?A) (MonthFromDay nb) (DateFromDay nb)"
  proof
    assume b: "monthDayBefore (MonthFromDay ?A) (DateFromDay ?A) (MonthFromDay nb) (DateFromDay nb)"
    have "monthStart ?L (MonthFromDay ?A) + DateFromDay ?A < monthStart ?L (MonthFromDay nb) + DateFromDay nb"
      using dayInYear_less[OF MonthFromDay_range MonthFromDay_range(2) _ DateFromDay_range(1) b, of ?L]
        DateFromDay_range(2)[of ?A] unfolding y by simp
    moreover have "?A = DayFromYear (YearFromDay nb + k) + monthStart ?L (MonthFromDay ?A) + DateFromDay ?A - 1"
      using day_number[of ?A] unfolding y .
    moreover have "?A = DayFromYear (YearFromDay nb + k) + monthStart ?L (MonthFromDay nb) + DateFromDay nb - 1"
      by (rule MakeDay_simple[OF MonthFromDay_range])
    ultimately show False by linarith
  qed
  then show ?thesis unfolding rawAge_def y by simp
qed

lemma rawAge_day_before_anniversary:
  "rawAge nb (MakeDay (YearFromDay nb + k) (MonthFromDay nb) (DateFromDay nb) - 1) = k - 1"
proof -
  let ?y = "YearFromDay nb + k"
  let ?A = "MakeDay ?y (MonthFromDay nb) (DateFromDay nb)"
  let ?L = "isLeapYear ?y"
  have A: "?A = DayFromYear ?y + monthStart ?L (MonthFromDay nb) + DateFromDay nb - 1"
    by (rule MakeDay_simple[OF MonthFromDay_range])
  show ?thesis
  proof (cases "DayFromYear ?y \<le> ?A - 1")
    case True
    have hi: "?A - 1 < DayFromYear (?y + 1)" using birthday_in_year(2)[of ?y nb] by simp
    have y: "YearFromDay (?A - 1) = ?y" by (rule YearFromDay_unique[OF True hi])
    have "monthDayBefore (MonthFromDay (?A - 1)) (DateFromDay (?A - 1)) (MonthFromDay nb) (DateFromDay nb)"
    proof (rule ccontr)
      assume nb: "\<not> monthDayBefore (MonthFromDay (?A - 1)) (DateFromDay (?A - 1)) (MonthFromDay nb) (DateFromDay nb)"
      have "monthStart ?L (MonthFromDay nb) + DateFromDay nb
          \<le> monthStart ?L (MonthFromDay (?A - 1)) + DateFromDay (?A - 1)"
        by (rule dayInYear_le[OF MonthFromDay_range MonthFromDay_range(2) DateFromDay_range(2)
              DateFromDay_range(1) nb])
      moreover have "?A - 1 = DayFromYear ?y + monthStart ?L (MonthFromDay (?A - 1)) + DateFromDay (?A - 1) - 1"
        using day_number[of "?A - 1"] unfolding y .
      ultimately show False using A by linarith
    qed
    then show ?thesis unfolding rawAge_def y by simp
  next
    case False
    with birthday_in_year(1)[of ?y nb] have eq: "?A = DayFromYear ?y" by linarith
    have "DayFromYear (?y - 1) + 365 \<le> DayFromYear ?y" by (rule DayFromYear_less) simp
    then have lo: "DayFromYear (?y - 1) \<le> ?A - 1" using eq by linarith
    have hi: "?A - 1 < DayFromYear (?y - 1 + 1)" using eq by simp
    have y: "YearFromDay (?A - 1) = ?y - 1" by (rule YearFromDay_unique[OF lo hi])
    have z: "monthStart ?L (MonthFromDay nb) + DateFromDay nb - 1 = 0" using A eq by linarith
    have ms0: "monthStart ?L (MonthFromDay nb) = 0"
      using z monthStart_nonneg[of ?L "MonthFromDay nb"] DateFromDay_range(1)[of nb] by linarith
    then have m: "MonthFromDay nb = 0" by (rule monthStart_zero[OF MonthFromDay_range(1)])
    from z ms0 have d: "DateFromDay nb = 1" by linarith
    have "\<not> monthDayBefore (MonthFromDay (?A - 1)) (DateFromDay (?A - 1)) (MonthFromDay nb) (DateFromDay nb)"
      unfolding monthDayBefore_def
      using m d MonthFromDay_range(1)[of "?A - 1"] DateFromDay_range(1)[of "?A - 1"] by linarith
    then show ?thesis unfolding rawAge_def y by simp
  qed
qed

section \<open>The age in whole years\<close>

text \<open>
  Claim C5. For a birth date and a date \<open>onDate\<close> that are Dates with a time value,
  \<open>getAgeYears\<close> is the difference of the two years, less one when the (month, day) of
  \<open>onDate\<close> falls before the (month, day) of birth, and floored at zero, so it is never
  negative. The age of birth at birth is 0. On the \<open>k\<close>-th anniversary (\<open>k \<ge> 1\<close>: the date
  the constructor forms from birth's month and day in year birth + \<open>k\<close>) the age is \<open>k\<close>,
  and on the day before it the age is \<open>k - 1\<close>, at any time of day.
\<close>
theorem getAgeYears_spec:
  "getAgeYears (DateValue b) (DateValue t) =
     Num (max 0 (YearFromDay (Day t) - YearFromDay (Day b) -
            (if monthDayBefore (MonthFromDay (Day t)) (DateFromDay (Day t))
                  (MonthFromDay (Day b)) (DateFromDay (Day b)) then 1 else 0)))
   \<and> (\<exists>a. getAgeYears (DateValue b) (DateValue t) = Num a \<and> 0 \<le> a)
   \<and> getAgeYears (DateValue b) (DateValue b) = Num 0
   \<and> (\<forall>k r r'. 1 \<le> k \<and> 0 \<le> r \<and> r < msPerDay \<and> 0 \<le> r' \<and> r' < msPerDay \<longrightarrow>
         (let anniversary = MakeDay (YearFromDay (Day b) + k) (MonthFromDay (Day b)) (DateFromDay (Day b))
          in getAgeYears (DateValue b) (DateValue (anniversary * msPerDay + r)) = Num k
             \<and> getAgeYears (DateValue b) (DateValue ((anniversary - 1) * msPerDay + r')) = Num (k - 1)))"
proof (intro conjI allI impI)
  show "getAgeYears (DateValue b) (DateValue t) =
     Num (max 0 (YearFromDay (Day t) - YearFromDay (Day b) -
            (if monthDayBefore (MonthFromDay (Day t)) (DateFromDay (Day t))
                  (MonthFromDay (Day b)) (DateFromDay (Day b)) then 1 else 0)))"
    unfolding getAgeYears_value rawAge_def ..
  show "\<exists>a. getAgeYears (DateValue b) (DateValue t) = Num a \<and> 0 \<le> a"
    unfolding getAgeYears_value by simp
  show "getAgeYears (DateValue b) (DateValue b) = Num 0"
    unfolding getAgeYears_value rawAge_self by simp
next
  fix k r r' :: int
  assume h: "1 \<le> k \<and> 0 \<le> r \<and> r < msPerDay \<and> 0 \<le> r' \<and> r' < msPerDay"
  then have r: "0 \<le> r" "r < msPerDay" and r': "0 \<le> r'" "r' < msPerDay" and k: "1 \<le> k"
    by simp_all
  show "let anniversary = MakeDay (YearFromDay (Day b) + k) (MonthFromDay (Day b)) (DateFromDay (Day b))
          in getAgeYears (DateValue b) (DateValue (anniversary * msPerDay + r)) = Num k
             \<and> getAgeYears (DateValue b) (DateValue ((anniversary - 1) * msPerDay + r')) = Num (k - 1)"
    unfolding Let_def getAgeYears_value Day_within[OF r] Day_within[OF r']
      rawAge_anniversary rawAge_day_before_anniversary
    using k by simp
qed

theorem getAgeYears_spec_witness:
  "(1::int) \<le> 1 \<and> (0::int) \<le> 0 \<and> 0 < msPerDay
   \<and> MakeDay (YearFromDay (Day 946684800000) + 1) (MonthFromDay (Day 946684800000))
         (DateFromDay (Day 946684800000)) * msPerDay = 978307200000
   \<and> getAgeYears (DateValue 946684800000) (DateValue 978307200000) = Num 1
   \<and> getAgeYears (DateValue 946684800000) (DateValue 978220800000) = Num 0"
proof -
  have h: "(1::int) \<le> 1 \<and> (0::int) \<le> 0 \<and> 0 < msPerDay \<and> (0::int) \<le> 0 \<and> 0 < msPerDay"
    by (simp add: msPerDay_def)
  have e: "MakeDay (YearFromDay (Day 946684800000) + 1) (MonthFromDay (Day 946684800000))
         (DateFromDay (Day 946684800000)) = 11323"
    by code_simp
  have m: "11323 * msPerDay + 0 = 978307200000" "(11323 - 1) * msPerDay + 0 = 978220800000"
    by (simp_all add: msPerDay_def)
  from getAgeYears_spec[of 946684800000 946684800000] h
  have "let anniversary = MakeDay (YearFromDay (Day 946684800000) + 1)
              (MonthFromDay (Day 946684800000)) (DateFromDay (Day 946684800000))
        in getAgeYears (DateValue 946684800000) (DateValue (anniversary * msPerDay + 0)) = Num 1
           \<and> getAgeYears (DateValue 946684800000) (DateValue ((anniversary - 1) * msPerDay + 0)) = Num (1 - 1)"
    by blast
  then show ?thesis unfolding Let_def e m using h by (simp add: msPerDay_def)
qed

lemma midnightOf_plain:
  assumes "100 \<le> YearFromDay (Day t)"
  shows "midnightOf t = Day t * msPerDay"
proof -
  from assms have "MakeFullYear (YearFromDay (Day t)) = YearFromDay (Day t)"
    by (simp add: MakeFullYear_def)
  then show ?thesis unfolding midnightOf_def by (simp add: MakeDay_fields)
qed

lemma birthdayTime_plain:
  assumes "100 \<le> YearFromDay (Day b) + a"
  shows "birthdayTime b a =
     MakeDay (YearFromDay (Day b) + a) (MonthFromDay (Day b)) (DateFromDay (Day b)) * msPerDay"
proof -
  from assms have "MakeFullYear (YearFromDay (Day b) + a) = YearFromDay (Day b) + a"
    by (simp add: MakeFullYear_def)
  then show ?thesis unfolding birthdayTime_def by simp
qed

lemma msPerDay_pos: "0 < msPerDay"
  by (simp add: msPerDay_def)

lemma msPerWeek_days: "msPerWeek = 7 * msPerDay"
  by (simp add: msPerWeek_def msPerDay_def)

lemma weeksOf_days: "weeksOf (x * msPerDay) = (if x \<le> 0 then 0 else x div 7)"
proof -
  have "(msPerDay * x) div (msPerDay * 7) = x div 7"
    by (rule div_mult_mult1) (simp add: msPerDay_def)
  then have d: "(x * msPerDay) div msPerWeek = x div 7"
    by (simp add: msPerWeek_days mult.commute)
  have "(x * msPerDay \<le> 0) = (x \<le> 0)"
    using msPerDay_pos by (simp add: mult_le_0_iff)
  then show ?thesis unfolding weeksOf_def d by simp
qed

lemma midnightOf_birthdayTime:
  assumes "100 \<le> YearFromDay (Day b) + a"
  shows "midnightOf (birthdayTime b a) = birthdayTime b a"
proof -
  let ?l = "MakeDay (YearFromDay (Day b) + a) (MonthFromDay (Day b)) (DateFromDay (Day b))"
  have bt: "birthdayTime b a = ?l * msPerDay" by (rule birthdayTime_plain[OF assms])
  have y: "100 \<le> YearFromDay (Day (?l * msPerDay))"
    unfolding Day_midnight birthday_in_year(3) by (rule assms)
  show ?thesis unfolding bt midnightOf_plain[OF y] Day_midnight ..
qed

section \<open>Weeks since the last birthday\<close>

text \<open>
  Claim C7. For a birth date and a date \<open>onDate\<close> that are Dates with a time value,
  \<open>startOfDay\<close> gives a time value \<open>S\<close> for the last birthday and \<open>E\<close> for \<open>onDate\<close>, and
  \<open>weeksSinceLastBirthday\<close> is the floor of \<open>(E - S)\<close> over seven days when that span is
  positive and 0 when it is zero or negative: a number, never NaN and never negative, also
  when \<open>onDate\<close> is earlier than birth. \<open>E\<close> is the local midnight of the day of \<open>onDate\<close>
  (for \<open>onDate\<close> in year 100 or later), and \<open>S\<close> is the local midnight of the last birthday,
  the day the constructor forms from birth's month and day in the year birth + age (for a
  birth in year 100 or later). With both, the result is the whole number of seven-day
  periods in the days from the last birthday to \<open>onDate\<close>.
\<close>

theorem weeksSinceLastBirthday_spec:
  assumes "validTime b" and "validTime t"
  shows "\<exists>a S E. getAgeYears (DateValue b) (DateValue t) = Num a
           \<and> startOfDay (lastBirthday (DateValue b) (DateValue t)) = DateValue S
           \<and> startOfDay (DateValue t) = DateValue E
           \<and> weeksSinceLastBirthday (DateValue b) (DateValue t) =
               Num (if E - S \<le> 0 then 0 else (E - S) div msPerWeek)
           \<and> 0 \<le> (if E - S \<le> 0 then 0 else (E - S) div msPerWeek)
           \<and> (100 \<le> YearFromDay (Day t) \<longrightarrow>
                 E = Day t * msPerDay \<and> E \<le> t \<and> t < E + msPerDay)
           \<and> (100 \<le> YearFromDay (Day b) \<longrightarrow>
                 lastBirthday (DateValue b) (DateValue t) = DateValue S
                 \<and> S = MakeDay (YearFromDay (Day b) + a) (MonthFromDay (Day b))
                         (DateFromDay (Day b)) * msPerDay)
           \<and> (100 \<le> YearFromDay (Day b) \<and> 100 \<le> YearFromDay (Day t) \<longrightarrow>
                 weeksSinceLastBirthday (DateValue b) (DateValue t) =
                   Num (let days = Day t - MakeDay (YearFromDay (Day b) + a)
                                     (MonthFromDay (Day b)) (DateFromDay (Day b))
                        in if days \<le> 0 then 0 else days div 7))"
proof -
  define a where "a = max 0 (rawAge (Day b) (Day t))"
  define l where "l = MakeDay (YearFromDay (Day b) + a) (MonthFromDay (Day b)) (DateFromDay (Day b))"
  define S where "S = midnightOf (birthdayTime b a)"
  define E where "E = midnightOf t"
  have a0: "0 \<le> a" unfolding a_def by simp
  have 1: "getAgeYears (DateValue b) (DateValue t) = Num a"
    unfolding a_def by (rule getAgeYears_value)
  have lb: "lastBirthday (DateValue b) (DateValue t) = DateValue (birthdayTime b a)"
    unfolding a_def by (rule lastBirthday_birthdayTime(1)[OF assms])
  have 2: "startOfDay (lastBirthday (DateValue b) (DateValue t)) = DateValue S"
    unfolding lb S_def a_def
    by (rule startOfDay_midnightOf(1)[OF lastBirthday_birthdayTime(2)[OF assms]])
  have 3: "startOfDay (DateValue t) = DateValue E"
    unfolding E_def by (rule startOfDay_midnightOf(1)[OF assms(2)])
  have w: "weeksSinceLastBirthday (DateValue b) (DateValue t) = Num (weeksOf (E - S))"
    unfolding E_def S_def a_def by (rule weeksSinceLastBirthday_value[OF assms])
  have 4: "weeksSinceLastBirthday (DateValue b) (DateValue t) =
               Num (if E - S \<le> 0 then 0 else (E - S) div msPerWeek)"
    unfolding w weeksOf_def ..
  have 5: "0 \<le> (if E - S \<le> 0 then 0 else (E - S) div msPerWeek)"
    using weeksOf_nonneg[of "E - S"] unfolding weeksOf_def .
  have 6: "100 \<le> YearFromDay (Day t) \<longrightarrow> E = Day t * msPerDay \<and> E \<le> t \<and> t < E + msPerDay"
  proof
    assume y: "100 \<le> YearFromDay (Day t)"
    have e: "E = Day t * msPerDay" unfolding E_def by (rule midnightOf_plain[OF y])
    show "E = Day t * msPerDay \<and> E \<le> t \<and> t < E + msPerDay"
      using e Day_bounds[of t] by simp
  qed
  have 7: "100 \<le> YearFromDay (Day b) \<longrightarrow>
                 lastBirthday (DateValue b) (DateValue t) = DateValue S \<and> S = l * msPerDay"
  proof
    assume "100 \<le> YearFromDay (Day b)"
    with a0 have y: "100 \<le> YearFromDay (Day b) + a" by linarith
    have s: "S = birthdayTime b a" unfolding S_def by (rule midnightOf_birthdayTime[OF y])
    have "birthdayTime b a = l * msPerDay" unfolding l_def by (rule birthdayTime_plain[OF y])
    with s lb show "lastBirthday (DateValue b) (DateValue t) = DateValue S \<and> S = l * msPerDay"
      by simp
  qed
  have 8: "100 \<le> YearFromDay (Day b) \<and> 100 \<le> YearFromDay (Day t) \<longrightarrow>
                 weeksSinceLastBirthday (DateValue b) (DateValue t) =
                   Num (let days = Day t - l in if days \<le> 0 then 0 else days div 7)"
  proof
    assume h: "100 \<le> YearFromDay (Day b) \<and> 100 \<le> YearFromDay (Day t)"
    with 6 7 have "E = Day t * msPerDay" "S = l * msPerDay" by simp_all
    then have "E - S = (Day t - l) * msPerDay" by (simp add: algebra_simps)
    then show "weeksSinceLastBirthday (DateValue b) (DateValue t) =
                   Num (let days = Day t - l in if days \<le> 0 then 0 else days div 7)"
      unfolding w Let_def by (simp add: weeksOf_days)
  qed
  from 1 2 3 4 5 6 7 8 show ?thesis unfolding l_def by blast
qed

theorem weeksSinceLastBirthday_spec_witness:
  "validTime 946684800000 \<and> validTime 1786000000000
   \<and> 100 \<le> YearFromDay (Day 946684800000) \<and> 100 \<le> YearFromDay (Day 1786000000000)
   \<and> getAgeYears (DateValue 946684800000) (DateValue 1786000000000) = Num 26
   \<and> Day 1786000000000 - MakeDay (YearFromDay (Day 946684800000) + 26)
         (MonthFromDay (Day 946684800000)) (DateFromDay (Day 946684800000)) = 217
   \<and> weeksSinceLastBirthday (DateValue 946684800000) (DateValue 1786000000000) = Num 31"
proof -
  have v: "validTime 946684800000" "validTime 1786000000000"
    by (simp_all add: validTime_def maxTime_def)
  have y: "100 \<le> YearFromDay (Day 946684800000) \<and> 100 \<le> YearFromDay (Day 1786000000000)"
    by code_simp
  have d: "Day 1786000000000 - MakeDay (YearFromDay (Day 946684800000) + 26)
         (MonthFromDay (Day 946684800000)) (DateFromDay (Day 946684800000)) = 217"
    by code_simp
  from weeksSinceLastBirthday_spec[OF v] y obtain a where
    a: "getAgeYears (DateValue 946684800000) (DateValue 1786000000000) = Num a"
    and w: "weeksSinceLastBirthday (DateValue 946684800000) (DateValue 1786000000000) =
          Num (let days = Day 1786000000000 - MakeDay (YearFromDay (Day 946684800000) + a)
                            (MonthFromDay (Day 946684800000)) (DateFromDay (Day 946684800000))
               in if days \<le> 0 then 0 else days div 7)"
    by blast
  have "getAgeYears (DateValue 946684800000) (DateValue 1786000000000) = Num 26" by code_simp
  with a have a26: "a = 26" by simp
  have "weeksSinceLastBirthday (DateValue 946684800000) (DateValue 1786000000000) = Num 31"
    using w unfolding a26 d Let_def by simp
  with v y a a26 d show ?thesis by simp
qed

section \<open>The last birthday\<close>

text \<open>
  Claim C6, as amended. For a date \<open>onDate\<close> whose day is not before the day of birth,
  with birth in year 100 or later or \<open>onDate\<close> in year 101 or later, \<open>lastBirthday\<close> is
  local midnight of the day \<open>l\<close> that the constructor forms from birth's month and day in
  the year birth + age: \<open>l\<close> lies in that year, has birth's month and day whenever that day
  exists in that year (29 February becomes 1 March otherwise), is not after \<open>onDate\<close>, and
  is the day of \<open>onDate\<close> when \<open>onDate\<close> has birth's month and day.
\<close>
theorem lastBirthday_on_or_before:
  assumes "validTime b" and "validTime t"
    and "100 \<le> YearFromDay (Day b) \<or> 101 \<le> YearFromDay (Day t)" and "Day b \<le> Day t"
  shows "\<exists>a l. getAgeYears (DateValue b) (DateValue t) = Num a
           \<and> l = MakeDay (YearFromDay (Day b) + a) (MonthFromDay (Day b)) (DateFromDay (Day b))
           \<and> lastBirthday (DateValue b) (DateValue t) = DateValue (l * msPerDay)
           \<and> YearFromDay l = YearFromDay (Day b) + a
           \<and> (DateFromDay (Day b) \<le> DaysInMonth (isLeapYear (YearFromDay (Day b) + a)) (MonthFromDay (Day b))
                \<longrightarrow> MonthFromDay l = MonthFromDay (Day b) \<and> DateFromDay l = DateFromDay (Day b))
           \<and> l * msPerDay \<le> t
           \<and> (MonthFromDay (Day t) = MonthFromDay (Day b) \<and> DateFromDay (Day t) = DateFromDay (Day b)
                \<longrightarrow> l = Day t)"
proof (intro exI conjI impI)
  let ?a = "max 0 (rawAge (Day b) (Day t))"
  let ?l = "MakeDay (YearFromDay (Day b) + ?a) (MonthFromDay (Day b)) (DateFromDay (Day b))"
  have nn: "0 \<le> rawAge (Day b) (Day t)" by (rule rawAge_nonneg[OF assms(4)])
  then have a: "?a = rawAge (Day b) (Day t)" by simp
  have "YearFromDay (Day t) - 1 \<le> YearFromDay (Day b) + rawAge (Day b) (Day t)"
    unfolding rawAge_def by simp
  with nn assms(3) have yr: "100 \<le> YearFromDay (Day b) + ?a" unfolding a by linarith
  show "getAgeYears (DateValue b) (DateValue t) = Num ?a" by (rule getAgeYears_value)
  show "?l = ?l" ..
  show "lastBirthday (DateValue b) (DateValue t) = DateValue (?l * msPerDay)"
    unfolding lastBirthday_birthdayTime(1)[OF assms(1,2)]
    using birthdayTime_plain[OF yr] by simp
  show "YearFromDay ?l = YearFromDay (Day b) + ?a" by (rule birthday_in_year(3))
  have "?l \<le> Day t" unfolding a by (rule birthday_before_day[OF nn])
  then have "?l * msPerDay \<le> Day t * msPerDay" using msPerDay_pos by simp
  with Day_bounds(1)[of t] show "?l * msPerDay \<le> t" by linarith
  {
    assume d: "DateFromDay (Day b) \<le> DaysInMonth (isLeapYear (YearFromDay (Day b) + ?a)) (MonthFromDay (Day b))"
    show "MonthFromDay ?l = MonthFromDay (Day b)"
      by (rule fields_of_MakeDay(2)[OF MonthFromDay_range DateFromDay_range(1) d])
    show "DateFromDay ?l = DateFromDay (Day b)"
      by (rule fields_of_MakeDay(3)[OF MonthFromDay_range DateFromDay_range(1) d])
  }
  {
    assume e: "MonthFromDay (Day t) = MonthFromDay (Day b) \<and> DateFromDay (Day t) = DateFromDay (Day b)"
    then have "rawAge (Day b) (Day t) = YearFromDay (Day t) - YearFromDay (Day b)"
      unfolding rawAge_def monthDayBefore_def by simp
    then have "?l = MakeDay (YearFromDay (Day t)) (MonthFromDay (Day t)) (DateFromDay (Day t))"
      unfolding a using e by simp
    then show "?l = Day t" by (simp add: MakeDay_fields)
  }
qed

theorem lastBirthday_on_or_before_witness:
  "validTime 946684800000 \<and> validTime 1786000000000
   \<and> (100 \<le> YearFromDay (Day 946684800000) \<or> 101 \<le> YearFromDay (Day 1786000000000))
   \<and> Day 946684800000 \<le> Day 1786000000000
   \<and> (\<exists>l. lastBirthday (DateValue 946684800000) (DateValue 1786000000000) = DateValue (l * msPerDay)
           \<and> l * msPerDay \<le> 1786000000000)"
proof -
  have a: "validTime 946684800000" and b: "validTime 1786000000000"
    by (simp_all add: validTime_def maxTime_def)
  have c: "100 \<le> YearFromDay (Day 946684800000) \<or> 101 \<le> YearFromDay (Day 1786000000000)"
    by code_simp
  have d: "Day 946684800000 \<le> Day 1786000000000" by code_simp
  from lastBirthday_on_or_before[OF a b c d] a b c d show ?thesis by blast
qed

text \<open>
  With \<open>onDate\<close> before birth the age is floored at 0 and the last birthday is the birth
  date itself, which is after \<open>onDate\<close>: birth 2000-01-02 and \<open>onDate\<close> 2000-01-01.
\<close>

theorem lastBirthday_after_onDate_counterexample:
  "validTime 946771200000 \<and> validTime 946684800000
   \<and> lastBirthday (DateValue 946771200000) (DateValue 946684800000) = DateValue 946771200000
   \<and> \<not> (946771200000 \<le> (946684800000 :: int))"
  by code_simp

text \<open>
  In general, for a birth in year 100 or later and \<open>onDate\<close> on a day before the day of
  birth, the age is 0 and the last birthday is the day of birth, after \<open>onDate\<close>.
\<close>

lemma lastBirthday_before_birth:
  assumes "validTime b" and "validTime t"
    and "100 \<le> YearFromDay (Day b)" and "Day t < Day b"
  shows "getAgeYears (DateValue b) (DateValue t) = Num 0"
    and "lastBirthday (DateValue b) (DateValue t) = DateValue (Day b * msPerDay)"
    and "t < Day b * msPerDay"
proof -
  have "rawAge (Day b) (Day t) \<le> rawAge (Day b) (Day b)"
    by (rule rawAge_mono) (use assms(4) in simp)
  then have a: "max 0 (rawAge (Day b) (Day t)) = 0" unfolding rawAge_self by simp
  show "getAgeYears (DateValue b) (DateValue t) = Num 0"
    unfolding getAgeYears_value a ..
  have y: "100 \<le> YearFromDay (Day b) + 0" using assms(3) by simp
  show "lastBirthday (DateValue b) (DateValue t) = DateValue (Day b * msPerDay)"
    unfolding lastBirthday_birthdayTime(1)[OF assms(1,2)] a birthdayTime_plain[OF y]
    by (simp add: MakeDay_fields)
  have "Day t + 1 \<le> Day b" using assms(4) by simp
  then have "(Day t + 1) * msPerDay \<le> Day b * msPerDay"
    using msPerDay_pos by (simp only: mult_le_cancel_right) simp
  with Day_bounds(2)[of t] show "t < Day b * msPerDay" by (simp add: algebra_simps)
qed

text \<open>
  A last birthday in a year below 100 is outside the amended claim because the constructor
  reads the years 0 to 99 as 1900 to 1999: for a birth on 1 January of year 50 and the same
  day as \<open>onDate\<close>, the last birthday is 1 January 1950.
\<close>

lemma lastBirthday_two_digit_year:
  "lastBirthday (DateValue (- 60589296000000)) (DateValue (- 60589296000000)) =
     DateValue (- 631152000000)
   \<and> getFullYear (DateValue (- 60589296000000)) = Num 50
   \<and> getFullYear (DateValue (- 631152000000)) = Num 1950"
  by code_simp

section \<open>Monotonicity of the elapsed test\<close>

text \<open>
  Claim C3. For a birth date and two instants \<open>t1 \<le> t2\<close> that a clock can give, the
  earlier in year 100 or later, every coordinate that is elapsed at \<open>t1\<close> is elapsed at
  \<open>t2\<close>. The observation instant of the program is always the value of \<open>new Date()\<close>.
\<close>
theorem isWeekPassed_monotone:
  assumes "validTime b" and "validTime t1" and "validTime t2"
    and "100 \<le> YearFromDay (Day t1)" and "t1 \<le> t2"
    and "isWeekPassed (Some (DateValue b)) (DateValue t1) yi wi"
  shows "isWeekPassed (Some (DateValue b)) (DateValue t2) yi wi"
proof -
  define a1 where "a1 = max 0 (rawAge (Day b) (Day t1))"
  define a2 where "a2 = max 0 (rawAge (Day b) (Day t2))"
  define w1 where "w1 = weeksOf (midnightOf t1 - midnightOf (birthdayTime b a1))"
  define w2 where "w2 = weeksOf (midnightOf t2 - midnightOf (birthdayTime b a2))"
  have d: "Day t1 \<le> Day t2" by (rule Day_mono[OF assms(5)])
  have age: "a1 \<le> a2" unfolding a1_def a2_def using rawAge_mono[OF d, of "Day b"] by simp
  have y2: "100 \<le> YearFromDay (Day t2)" using YearFromDay_mono[OF d] assms(4) by linarith
  have m: "midnightOf t1 \<le> midnightOf t2"
    unfolding midnightOf_plain[OF assms(4)] midnightOf_plain[OF y2]
    using d msPerDay_pos by simp
  have weeks: "a1 = a2 \<Longrightarrow> w1 \<le> w2"
    unfolding w1_def w2_def by (simp add: weeksOf_mono m)
  have p1: "yi < a1 \<or> yi = a1 \<and> wi < min 52 w1"
    using assms(6) unfolding isWeekPassed_value[OF assms(1,2)] a1_def w1_def .
  have "yi < a2 \<or> yi = a2 \<and> wi < min 52 w2"
  proof (cases "a1 = a2")
    case True
    with p1 weeks[OF True] show ?thesis by auto
  next
    case False
    with age have "a1 < a2" by linarith
    with p1 show ?thesis by linarith
  qed
  then show ?thesis
    unfolding isWeekPassed_value[OF assms(1,3)] a2_def w2_def .
qed

theorem isWeekPassed_monotone_witness:
  "validTime 946684800000 \<and> validTime 947289600000 \<and> validTime 1786000000000
   \<and> 100 \<le> YearFromDay (Day 947289600000)
   \<and> (947289600000 :: int) \<le> 1786000000000
   \<and> isWeekPassed (Some (DateValue 946684800000)) (DateValue 947289600000) 0 0
   \<and> isWeekPassed (Some (DateValue 946684800000)) (DateValue 1786000000000) 0 0"
proof -
  have a: "validTime 946684800000" and b: "validTime 947289600000" and c: "validTime 1786000000000"
    by (simp_all add: validTime_def maxTime_def)
  have e: "100 \<le> YearFromDay (Day 947289600000)" by code_simp
  have f: "(947289600000 :: int) \<le> 1786000000000" by simp
  have g: "isWeekPassed (Some (DateValue 946684800000)) (DateValue 947289600000) 0 0" by code_simp
  from isWeekPassed_monotone[OF a b c e f g] a b c e f g show ?thesis by blast
qed

text \<open>
  The condition on the year leaves out instants no clock gives. An instant in a year from
  0 to 99 is rebuilt by \<open>startOfDay\<close> in the years 1900 to 1999: for the birth date
  0100-01-01, which passes \<open>isValidDateInput\<close>, the instant 0050-06-01 is taken as
  1950-06-01 and the whole first row is elapsed, while at the later instant 0100-01-01 no
  week is.
\<close>

lemma isWeekPassed_two_digit_year_instant:
  "validTime (- 59011459200000) \<and> validTime (- 60576249600000)
   \<and> isValidDateInput ''0100-01-01''
   \<and> birthDate ''0100-01-01'' = Some (Some (DateValue (- 59011459200000)))
   \<and> (- 60576249600000 :: int) < - 59011459200000
   \<and> isWeekPassed (Some (DateValue (- 59011459200000))) (DateValue (- 60576249600000)) 0 0
   \<and> \<not> isWeekPassed (Some (DateValue (- 59011459200000))) (DateValue (- 59011459200000)) 0 0"
  by code_simp

section \<open>Two scenarios\<close>

lemma validTime_in_day:
  assumes "0 \<le> r" and "r < msPerDay" and "dayOK n" and "n < 100000000"
  shows "validTime (n * msPerDay + r)"
proof -
  from assms(3,4) have "- 100000000 \<le> n" "n + 1 \<le> 100000000" by (simp_all add: dayOK_def)
  then have "- 8640000000000000 \<le> n * 86400000" "n * 86400000 + 86400000 \<le> 8640000000000000"
    by linarith+
  with assms(1,2) show ?thesis
    unfolding validTime_def maxTime_def msPerDay_def by (simp add: abs_le_iff)
qed

lemma scenario_same_day:
  assumes r: "0 \<le> r" "r < msPerDay"
  shows "isWeekPassed (Some (DateValue 946684800000)) (DateValue (946684800000 + r)) yi wi
         = (yi < 0 \<or> yi = 0 \<and> wi < 0)"
proof -
  have t: "946684800000 + r = 10957 * msPerDay + r" by (simp add: msPerDay_def)
  have D: "Day (946684800000 + r) = 10957" unfolding t by (rule Day_within[OF r])
  have vb: "validTime 946684800000" by (simp add: validTime_def maxTime_def)
  have vt: "validTime (946684800000 + r)"
    unfolding t by (rule validTime_in_day[OF r]) (simp_all add: dayOK_def)
  have ra: "rawAge (Day 946684800000) 10957 = 0" by code_simp
  have mt: "midnightOf (946684800000 + r) = 946684800000"
    unfolding midnightOf_def D by code_simp
  have bt: "midnightOf (birthdayTime 946684800000 0) = 946684800000" by code_simp
  show ?thesis
    unfolding isWeekPassed_value[OF vb vt] D ra
    by (simp add: mt bt weeksOf_def)
qed

lemma scenario_week_later:
  assumes r: "0 \<le> r" "r < msPerDay"
  shows "isWeekPassed (Some (DateValue 946684800000)) (DateValue (947289600000 + r)) yi wi
         = (yi < 0 \<or> yi = 0 \<and> wi < 1)"
proof -
  have t: "947289600000 + r = 10964 * msPerDay + r" by (simp add: msPerDay_def)
  have D: "Day (947289600000 + r) = 10964" unfolding t by (rule Day_within[OF r])
  have vb: "validTime 946684800000" by (simp add: validTime_def maxTime_def)
  have vt: "validTime (947289600000 + r)"
    unfolding t by (rule validTime_in_day[OF r]) (simp_all add: dayOK_def)
  have ra: "rawAge (Day 946684800000) 10964 = 0" by code_simp
  have mt: "midnightOf (947289600000 + r) = 947289600000"
    unfolding midnightOf_def D by code_simp
  have bt: "midnightOf (birthdayTime 946684800000 0) = 946684800000" by code_simp
  have w: "weeksOf 604800000 = 1" by code_simp
  show ?thesis
    unfolding isWeekPassed_value[OF vb vt] D ra
    by (simp add: mt bt w)
qed

text \<open>
  Claim C4. The birth date read from \<open>2000-01-01\<close> is local midnight of that day. With
  \<open>now\<close> at any time of 2000-01-01 no coordinate of the 90 x 52 grid is elapsed; with
  \<open>now\<close> at any time of 2000-01-08 the coordinate (0, 0) is elapsed and (0, 1) is not.
\<close>

theorem scenarios_2000:
  "birthDate ''2000-01-01'' = Some (Some (DateValue 946684800000))
   \<and> (\<forall>r yi wi. 0 \<le> r \<and> r < msPerDay \<and> 0 \<le> yi \<and> yi < TOTAL_YEARS \<and> 0 \<le> wi \<and> wi < WEEKS_PER_YEAR
         \<longrightarrow> \<not> isWeekPassed (Some (DateValue 946684800000)) (DateValue (946684800000 + r)) yi wi)
   \<and> (\<forall>r. 0 \<le> r \<and> r < msPerDay
         \<longrightarrow> isWeekPassed (Some (DateValue 946684800000)) (DateValue (947289600000 + r)) 0 0
           \<and> \<not> isWeekPassed (Some (DateValue 946684800000)) (DateValue (947289600000 + r)) 0 1)"
proof (intro conjI allI impI)
  show "birthDate ''2000-01-01'' = Some (Some (DateValue 946684800000))" by code_simp
next
  fix r yi wi :: int
  assume "0 \<le> r \<and> r < msPerDay \<and> 0 \<le> yi \<and> yi < TOTAL_YEARS \<and> 0 \<le> wi \<and> wi < WEEKS_PER_YEAR"
  then show "\<not> isWeekPassed (Some (DateValue 946684800000)) (DateValue (946684800000 + r)) yi wi"
    by (simp add: scenario_same_day)
next
  fix r :: int
  assume r: "0 \<le> r \<and> r < msPerDay"
  then show "isWeekPassed (Some (DateValue 946684800000)) (DateValue (947289600000 + r)) 0 0"
    by (simp add: scenario_week_later)
  from r show "\<not> isWeekPassed (Some (DateValue 946684800000)) (DateValue (947289600000 + r)) 0 1"
    by (simp add: scenario_week_later)
qed

theorem scenarios_2000_witness:
  "(0::int) \<le> 0 \<and> 0 < msPerDay \<and> 0 < TOTAL_YEARS \<and> 0 < WEEKS_PER_YEAR
   \<and> \<not> isWeekPassed (Some (DateValue 946684800000)) (DateValue 946684800000) 0 0
   \<and> isWeekPassed (Some (DateValue 946684800000)) (DateValue 947289600000) 0 0
   \<and> \<not> isWeekPassed (Some (DateValue 946684800000)) (DateValue 947289600000) 0 1"
proof -
  have h: "(0::int) \<le> 0 \<and> 0 < msPerDay \<and> (0::int) \<le> 0 \<and> 0 < TOTAL_YEARS \<and> (0::int) \<le> 0 \<and> 0 < WEEKS_PER_YEAR"
    by (simp add: msPerDay_def TOTAL_YEARS_def WEEKS_PER_YEAR_def)
  have a: "\<not> isWeekPassed (Some (DateValue 946684800000)) (DateValue (946684800000 + 0)) 0 0"
    using scenarios_2000 h by blast
  have b: "isWeekPassed (Some (DateValue 946684800000)) (DateValue (947289600000 + 0)) 0 0
      \<and> \<not> isWeekPassed (Some (DateValue 946684800000)) (DateValue (947289600000 + 0)) 0 1"
    using scenarios_2000 h by blast
  from a b h show ?thesis by simp
qed

section \<open>The life-expectancy outlines\<close>

text \<open>
  Claim C8. The cell of the 0-based coordinate \<open>(yearIndex, weekIndex)\<close> is rendered with
  \<open>year = yearIndex + 1\<close> and \<open>week = weekIndex + 1\<close>. It carries the women's outline
  exactly at the coordinate (80, 14) and the men's exactly at (75, 9), not at (81, 15) and
  (76, 10); the first class, which shows elapsed or not, does not depend on the outlines.
\<close>

theorem outline_coordinates:
  "(cellClasses bd now (yi + 1) (wi + 1) ! 1 = ''border-1 border-emerald-500'') = (yi = 80 \<and> wi = 14)
   \<and> (cellClasses bd now (yi + 1) (wi + 1) ! 2 = ''border-1 border-blue-500'') = (yi = 75 \<and> wi = 9)
   \<and> cellClasses bd now (81 + 1) (15 + 1) ! 1 = []
   \<and> cellClasses bd now (76 + 1) (10 + 1) ! 2 = []
   \<and> cellClasses bd now (yi + 1) (wi + 1) ! 0 =
       (if isWeekPassed bd now yi wi then ''bg-rose-600'' else ''bg-neutral-800'')
   \<and> totalWeeks LIFE_EXPECTANCY_women = 81 * 52 + 15
   \<and> totalWeeks LIFE_EXPECTANCY_men = 76 * 52 + 10"
  by (auto simp: cellClasses_def LIFE_EXPECTANCY_women_def LIFE_EXPECTANCY_men_def
      WEEKS_PER_YEAR_def)

text \<open>
  For a birth on 2000-01-01 and an observation on 2081-04-16, at the age of 81 years
  and 15 weeks, the last elapsed cell is (81, 14) and the first cell not elapsed is
  (81, 15); the cell that carries the women's outline, (80, 14), lies one row and one
  column before that one.
\<close>

lemma outline_one_row_early:
  "getAgeYears (DateValue 946684800000) (DateValue 3511987200000) = Num 81
   \<and> weeksSinceLastBirthday (DateValue 946684800000) (DateValue 3511987200000) = Num 15
   \<and> isWeekPassed (Some (DateValue 946684800000)) (DateValue 3511987200000) 81 14
   \<and> \<not> isWeekPassed (Some (DateValue 946684800000)) (DateValue 3511987200000) 81 15
   \<and> cellClasses (Some (DateValue 946684800000)) (DateValue 3511987200000) (80 + 1) (14 + 1)
       = [''bg-rose-600'', ''border-1 border-emerald-500'', []]
   \<and> cellClasses (Some (DateValue 946684800000)) (DateValue 3511987200000) (81 + 1) (15 + 1)
       = [''bg-neutral-800'', [], []]"
  by code_simp

lemma isValidDateInput_nonempty: "isValidDateInput v \<Longrightarrow> v \<noteq> []"
  by (auto simp: isValidDateInput_def)

lemma birthDate_empty: "birthDate [] = Some None"
  by (simp add: birthDate_def)

section \<open>Strings of the shape YYYY-MM-DD\<close>

lemma isDigit_cases:
  assumes "isDigit c"
  shows "c = CHR ''0'' \<or> c = CHR ''1'' \<or> c = CHR ''2'' \<or> c = CHR ''3'' \<or> c = CHR ''4''
       \<or> c = CHR ''5'' \<or> c = CHR ''6'' \<or> c = CHR ''7'' \<or> c = CHR ''8'' \<or> c = CHR ''9''"
  using assms unfolding isDigit_def by auto

lemma digitVal_range:
  assumes "isDigit c"
  shows "0 \<le> digitVal c" and "digitVal c \<le> 9"
  using isDigit_cases[OF assms] by (auto simp: digitVal_def)

lemma isDigit_not_dash: "isDigit c \<Longrightarrow> c \<noteq> CHR ''-''"
  using isDigit_cases[of c] by auto

lemma digitsValue_2: "digitsValue [a, b] = 10 * digitVal a + digitVal b"
  by (simp add: digitsValue_def)

lemma digitsValue_4:
  "digitsValue [a, b, c, d] = 1000 * digitVal a + 100 * digitVal b + 10 * digitVal c + digitVal d"
  by (simp add: digitsValue_def)

lemma pattern_form:
  assumes "matchesDatePattern v"
  obtains y1 y2 y3 y4 m1 m2 d1 d2 where
    "v = [y1, y2, y3, y4, CHR ''-'', m1, m2, CHR ''-'', d1, d2]"
    "isDigit y1" "isDigit y2" "isDigit y3" "isDigit y4"
    "isDigit m1" "isDigit m2" "isDigit d1" "isDigit d2"
  using assms by (rule matchesDatePattern.elims(2)) auto

lemma pattern_split:
  assumes "matchesDatePattern v"
  shows "split_dash v = [take 4 v, take 2 (drop 5 v), drop 8 v]"
    and "list_all isDigit (take 4 v)" and "list_all isDigit (take 2 (drop 5 v))"
    and "list_all isDigit (drop 8 v)"
    and "0 \<le> digitsValue (take 4 v)" and "digitsValue (take 4 v) \<le> 9999"
    and "0 \<le> digitsValue (take 2 (drop 5 v))" and "digitsValue (take 2 (drop 5 v)) \<le> 99"
    and "0 \<le> digitsValue (drop 8 v)" and "digitsValue (drop 8 v) \<le> 99"
proof -
  have "split_dash v = [take 4 v, take 2 (drop 5 v), drop 8 v]
      \<and> list_all isDigit (take 4 v) \<and> list_all isDigit (take 2 (drop 5 v))
      \<and> list_all isDigit (drop 8 v)
      \<and> 0 \<le> digitsValue (take 4 v) \<and> digitsValue (take 4 v) \<le> 9999
      \<and> 0 \<le> digitsValue (take 2 (drop 5 v)) \<and> digitsValue (take 2 (drop 5 v)) \<le> 99
      \<and> 0 \<le> digitsValue (drop 8 v) \<and> digitsValue (drop 8 v) \<le> 99"
  proof (rule pattern_form[OF assms])
    fix y1 y2 y3 y4 m1 m2 d1 d2
    assume v: "v = [y1, y2, y3, y4, CHR ''-'', m1, m2, CHR ''-'', d1, d2]"
      and dg: "isDigit y1" "isDigit y2" "isDigit y3" "isDigit y4"
        "isDigit m1" "isDigit m2" "isDigit d1" "isDigit d2"
    have s: "split_dash v = [take 4 v, take 2 (drop 5 v), drop 8 v]"
      unfolding v using dg[THEN isDigit_not_dash] by simp
    have l: "list_all isDigit (take 4 v)" "list_all isDigit (take 2 (drop 5 v))"
      "list_all isDigit (drop 8 v)"
      unfolding v using dg by simp_all
    have y: "take 4 v = [y1, y2, y3, y4]" and m: "take 2 (drop 5 v) = [m1, m2]"
      and d: "drop 8 v = [d1, d2]" unfolding v by simp_all
    have ry: "0 \<le> digitsValue (take 4 v)" "digitsValue (take 4 v) \<le> 9999"
      unfolding y digitsValue_4
      using digitVal_range[OF dg(1)] digitVal_range[OF dg(2)] digitVal_range[OF dg(3)]
        digitVal_range[OF dg(4)] by linarith+
    have rm: "0 \<le> digitsValue (take 2 (drop 5 v))" "digitsValue (take 2 (drop 5 v)) \<le> 99"
      unfolding m digitsValue_2 using digitVal_range[OF dg(5)] digitVal_range[OF dg(6)]
      by linarith+
    have rd: "0 \<le> digitsValue (drop 8 v)" "digitsValue (drop 8 v) \<le> 99"
      unfolding d digitsValue_2 using digitVal_range[OF dg(7)] digitVal_range[OF dg(8)]
      by linarith+
    from s l ry rm rd show ?thesis by blast
  qed
  then show "split_dash v = [take 4 v, take 2 (drop 5 v), drop 8 v]"
    and "list_all isDigit (take 4 v)" and "list_all isDigit (take 2 (drop 5 v))"
    and "list_all isDigit (drop 8 v)"
    and "0 \<le> digitsValue (take 4 v)" and "digitsValue (take 4 v) \<le> 9999"
    and "0 \<le> digitsValue (take 2 (drop 5 v))" and "digitsValue (take 2 (drop 5 v)) \<le> 99"
    and "0 \<le> digitsValue (drop 8 v)" and "digitsValue (drop 8 v) \<le> 99"
    by blast+
qed

lemma YearFromDay_ge: "DayFromYear y \<le> n \<Longrightarrow> y \<le> YearFromDay n"
proof (rule ccontr)
  assume a: "DayFromYear y \<le> n" and "\<not> y \<le> YearFromDay n"
  then have "YearFromDay n + 1 \<le> y" by simp
  then have "DayFromYear (YearFromDay n + 1) \<le> DayFromYear y" by (rule DayFromYear_mono)
  with YearFromDay_high[of n] a show False by linarith
qed

lemma four_digit_year_dayOK:
  assumes "100 \<le> y" and "y \<le> 9999" and "0 \<le> m" and "m \<le> 11" and "1 \<le> d" and "d \<le> 31"
  shows "dayOK (MakeDay y m d)"
proof -
  define F where "F = DayFromYear y"
  have "146097 * y - 287811890 \<le> 400 * F" "400 * F \<le> 146097 * y - 287810290"
    using DayFromYear_flat[of y] by (simp_all add: F_def)
  with assms(1,2) have "- 1000000 \<le> F" "F \<le> 4000000" by linarith+
  then show ?thesis
    unfolding MakeDay_simple[OF assms(3,4)] F_def[symmetric] dayOK_def
    using monthStart_nonneg[of "isLeapYear y" m] monthStart_le[of "isLeapYear y" m] assms(5,6)
    by linarith
qed

lemma DaysInMonth_le_31: "DaysInMonth leap m \<le> 31"
  by (simp add: DaysInMonth_def)

lemma roundTrips_valid:
  assumes "100 \<le> y" and "y \<le> 9999" and "validCalendarDate y m d"
  shows "roundTrips y m d"
    and "new_Date (Num y) (Num (m - 1)) (Num d) = DateValue (MakeDay y (m - 1) d * msPerDay)"
    and "validTime (MakeDay y (m - 1) d * msPerDay)"
proof -
  from assms(3) have m: "0 \<le> m - 1" "m - 1 \<le> 11" and d: "1 \<le> d"
    "d \<le> DaysInMonth (isLeapYear y) (m - 1)"
    by (simp_all add: validCalendarDate_def)
  have d31: "d \<le> 31" using d(2) DaysInMonth_le_31[of "isLeapYear y" "m - 1"] by linarith
  have ok: "dayOK (MakeDay y (m - 1) d)"
    by (rule four_digit_year_dayOK[OF assms(1,2) m d(1) d31])
  have fy: "MakeFullYear y = y" using assms(1) by (simp add: MakeFullYear_def)
  show nd: "new_Date (Num y) (Num (m - 1)) (Num d) = DateValue (MakeDay y (m - 1) d * msPerDay)"
    unfolding new_Date_def by (simp add: fy TimeClip_day[OF ok])
  show "validTime (MakeDay y (m - 1) d * msPerDay)" by (rule dayOK_validTime[OF ok])
  show "roundTrips y m d"
    unfolding roundTrips_def Let_def
    by (simp add: nd Day_midnight fields_of_MakeDay[OF m d])
qed

lemma roundTrips_only_valid:
  assumes y: "0 \<le> y" and r: "roundTrips y m d"
  shows "100 \<le> y" and "validCalendarDate y m d"
proof -
  let ?n = "MakeDay (MakeFullYear y) (m - 1) d"
  have nd: "new_Date (Num y) (js_sub (Num m) (Num 1)) (Num d) = TimeClip (?n * msPerDay)"
    by (simp add: new_Date_def)
  have v: "TimeClip (?n * msPerDay) = DateValue (?n * msPerDay)"
  proof (cases "TimeClip (?n * msPerDay)")
    case InvalidDate
    with r show ?thesis unfolding roundTrips_def Let_def nd by simp
  next
    case (DateValue t)
    then show ?thesis by (simp add: TimeClip_def split: if_splits)
  qed
  from r have f: "YearFromDay ?n = y" "MonthFromDay ?n = m - 1" "DateFromDay ?n = d"
    unfolding roundTrips_def Let_def nd v by (simp_all add: Day_midnight)
  have m: "0 \<le> m - 1" "m - 1 \<le> 11" using MonthFromDay_range[of ?n] unfolding f by simp_all
  have d: "1 \<le> d" "d \<le> DaysInMonth (isLeapYear y) (m - 1)"
    using DateFromDay_range[of ?n] unfolding f by simp_all
  show "validCalendarDate y m d" using m d by (simp add: validCalendarDate_def)
  show "100 \<le> y"
  proof (rule ccontr)
    assume "\<not> 100 \<le> y"
    with y have fy: "MakeFullYear y = 1900 + y" by (simp add: MakeFullYear_def)
    have "DayFromYear (1900 + y) \<le> ?n"
      unfolding fy MakeDay_simple[OF m]
      using monthStart_nonneg[of "isLeapYear (1900 + y)" "m - 1"] d(1) by linarith
    then have "1900 + y \<le> YearFromDay ?n" by (rule YearFromDay_ge)
    with f(1) show False by simp
  qed
qed

lemma isValidDateInput_pattern:
  assumes "matchesDatePattern v"
  shows "isValidDateInput v =
     (let y = digitsValue (take 4 v); m = digitsValue (take 2 (drop 5 v));
          d = digitsValue (drop 8 v)
      in y \<noteq> 0 \<and> m \<noteq> 0 \<and> d \<noteq> 0 \<and> roundTrips y m d)"
  unfolding isValidDateInput_def pattern_split(1)[OF assms] roundTrips_def Let_def
  using assms by (simp add: digitsToNumber_def)

lemma isValidDateInput_iff:
  assumes "matchesDatePattern v"
  shows "isValidDateInput v =
     (100 \<le> digitsValue (take 4 v)
      \<and> validCalendarDate (digitsValue (take 4 v)) (digitsValue (take 2 (drop 5 v)))
           (digitsValue (drop 8 v)))"
proof -
  let ?y = "digitsValue (take 4 v)" and ?m = "digitsValue (take 2 (drop 5 v))"
    and ?d = "digitsValue (drop 8 v)"
  show ?thesis
  proof
    assume "isValidDateInput v"
    then have "roundTrips ?y ?m ?d"
      unfolding isValidDateInput_pattern[OF assms] Let_def by simp
    then show "100 \<le> ?y \<and> validCalendarDate ?y ?m ?d"
      using roundTrips_only_valid[OF pattern_split(5)[OF assms]] by blast
  next
    assume a: "100 \<le> ?y \<and> validCalendarDate ?y ?m ?d"
    then have "roundTrips ?y ?m ?d"
      using roundTrips_valid(1)[OF _ pattern_split(6)[OF assms]] by blast
    moreover from a have "?y \<noteq> 0" "?m \<noteq> 0" "?d \<noteq> 0"
      by (auto simp: validCalendarDate_def)
    ultimately show "isValidDateInput v"
      unfolding isValidDateInput_pattern[OF assms] Let_def by simp
  qed
qed

lemma birthDate_pattern:
  assumes "matchesDatePattern v"
  shows "birthDate v =
     (let y = digitsValue (take 4 v); m = digitsValue (take 2 (drop 5 v));
          d = digitsValue (drop 8 v)
      in Some (if y = 0 \<or> m = 0 \<or> d = 0 then None
               else Some (new_Date (Num y) (Num (m - 1)) (Num d))))"
proof -
  have ne: "v \<noteq> []" using assms by auto
  show ?thesis
    unfolding birthDate_def Let_def pattern_split(1)[OF assms]
    using ne pattern_split(2,3,4)[OF assms]
    by (simp add: Number_js_def digitsToNumber_def)
qed

lemma pattern_shape:
  assumes "matchesDatePattern v"
  shows "length v = 10 \<and> v ! 4 = CHR ''-'' \<and> v ! 7 = CHR ''-''"
  by (rule pattern_form[OF assms]) simp

lemma isValidDateInput_imp_pattern: "isValidDateInput v \<Longrightarrow> matchesDatePattern v"
  unfolding isValidDateInput_def by (simp split: if_splits)

lemma birthDate_of_valid:
  assumes "isValidDateInput v"
  shows "\<exists>t. birthDate v = Some (Some (DateValue t)) \<and> validTime t
           \<and> getFullYear (DateValue t) = Num (digitsValue (take 4 v))
           \<and> getMonth (DateValue t) = Num (digitsValue (take 2 (drop 5 v)) - 1)
           \<and> getDate (DateValue t) = Num (digitsValue (drop 8 v))"
proof -
  let ?y = "digitsValue (take 4 v)" and ?m = "digitsValue (take 2 (drop 5 v))"
    and ?d = "digitsValue (drop 8 v)"
  have p: "matchesDatePattern v" by (rule isValidDateInput_imp_pattern[OF assms])
  from assms have y: "100 \<le> ?y" and c: "validCalendarDate ?y ?m ?d"
    unfolding isValidDateInput_iff[OF p] by simp_all
  from c have m: "0 \<le> ?m - 1" "?m - 1 \<le> 11" and d: "1 \<le> ?d"
    "?d \<le> DaysInMonth (isLeapYear ?y) (?m - 1)"
    by (simp_all add: validCalendarDate_def)
  have nz: "?y \<noteq> 0" "?m \<noteq> 0" "?d \<noteq> 0" using y m d by simp_all
  have b: "birthDate v = Some (Some (DateValue (MakeDay ?y (?m - 1) ?d * msPerDay)))"
    unfolding birthDate_pattern[OF p] Let_def
    using nz roundTrips_valid(2)[OF y pattern_split(6)[OF p] c] by simp
  show ?thesis
    using b roundTrips_valid(3)[OF y pattern_split(6)[OF p] c] fields_of_MakeDay[OF m d]
    by (simp add: Day_midnight)
qed

lemma digit_enum:
  fixes k :: int
  assumes "0 \<le> k" and "k \<le> 9"
  shows "k = 0 \<or> k = 1 \<or> k = 2 \<or> k = 3 \<or> k = 4 \<or> k = 5 \<or> k = 6 \<or> k = 7 \<or> k = 8 \<or> k = 9"
proof -
  have a: "k = 0 \<or> k = 1 \<or> k = 2 \<or> k = 3 \<or> 4 \<le> k" using assms(1) by linarith
  have b: "4 \<le> k \<Longrightarrow> k = 4 \<or> k = 5 \<or> k = 6 \<or> k = 7 \<or> 8 \<le> k" by linarith
  have c: "8 \<le> k \<Longrightarrow> k = 8 \<or> k = 9" using assms(2) by linarith
  from a b c show ?thesis by blast
qed

lemma digitChar_digit:
  assumes "0 \<le> k" and "k \<le> 9"
  shows "isDigit (digitChar k)" and "digitVal (digitChar k) = k"
  using digit_enum[OF assms]
  by (auto simp: digitChar_def isDigit_def digitVal_def)

lemma pos10: "(0::int) < 10"
  by simp

lemma last_digit_range: "0 \<le> (n::int) mod 10" "(n::int) mod 10 \<le> 9"
  using pos_mod_bound[OF pos10, of n] pos_mod_sign[OF pos10, of n] by linarith+

lemma pad2_value:
  assumes "0 \<le> n" and "n \<le> 99"
  shows "digitsValue (pad2 n) = n" and "list_all isDigit (pad2 n)"
proof -
  have q: "0 \<le> n div 10" "n div 10 \<le> 9"
    using div_bounds[OF pos10, of n] assms by linarith+
  have e: "10 * (n div 10) + n mod 10 = n" by simp
  show "digitsValue (pad2 n) = n"
    unfolding pad2_def digitsValue_2 digitChar_digit(2)[OF q] digitChar_digit(2)[OF last_digit_range]
    by (rule e)
  show "list_all isDigit (pad2 n)"
    unfolding pad2_def using digitChar_digit(1)[OF q] digitChar_digit(1)[OF last_digit_range]
    by simp
qed

lemma pad4_value:
  assumes "0 \<le> n" and "n \<le> 9999"
  shows "digitsValue (pad4 n) = n" and "list_all isDigit (pad4 n)"
proof -
  define a where "a = n div 10"
  define b where "b = a div 10"
  define c where "c = b div 10"
  have ea: "10 * a + n mod 10 = n" unfolding a_def by simp
  have eb: "10 * b + a mod 10 = a" unfolding b_def by simp
  have ec: "10 * c + b mod 10 = b" unfolding c_def by simp
  have b100: "n div 100 = b" unfolding b_def a_def by (simp add: zdiv_zmult2_eq)
  have c1000: "n div 1000 = c" unfolding c_def b_def a_def by (simp add: zdiv_zmult2_eq)
  have ra: "0 \<le> a" "a \<le> 999" using div_bounds[OF pos10, of n] assms unfolding a_def by linarith+
  have rb: "0 \<le> b" "b \<le> 99" using div_bounds[OF pos10, of a] ra unfolding b_def by linarith+
  have rc: "0 \<le> c" "c \<le> 9" using div_bounds[OF pos10, of b] rb unfolding c_def by linarith+
  have p: "pad4 n = [digitChar c, digitChar (b mod 10), digitChar (a mod 10), digitChar (n mod 10)]"
    unfolding pad4_def b100 c1000 a_def[symmetric] ..
  have "1000 * c + 100 * (b mod 10) + 10 * (a mod 10) + n mod 10 = n"
    using ea eb ec by linarith
  then show "digitsValue (pad4 n) = n"
    unfolding p digitsValue_4 digitChar_digit(2)[OF rc] digitChar_digit(2)[OF last_digit_range] .
  show "list_all isDigit (pad4 n)"
    unfolding p using digitChar_digit(1)[OF rc] digitChar_digit(1)[OF last_digit_range] by simp
qed

lemma formatDate_parts:
  "take 4 (formatDate y m d) = pad4 y" "take 2 (drop 5 (formatDate y m d)) = pad2 m"
  "drop 8 (formatDate y m d) = pad2 d"
  by (simp_all add: formatDate_def pad4_def pad2_def)

lemma formatDate_pattern:
  assumes "0 \<le> y" and "y \<le> 9999" and "0 \<le> m" and "m \<le> 99" and "0 \<le> d" and "d \<le> 99"
  shows "matchesDatePattern (formatDate y m d)"
  using pad4_value(2)[OF assms(1,2)] pad2_value(2)[OF assms(3,4)] pad2_value(2)[OF assms(5,6)]
  by (simp add: formatDate_def pad4_def pad2_def)

lemma formatDate_valid:
  assumes "100 \<le> y" and "y \<le> 9999" and "validCalendarDate y m d"
  shows "isValidDateInput (formatDate y m d)"
    and "digitsValue (take 4 (formatDate y m d)) = y"
    and "digitsValue (take 2 (drop 5 (formatDate y m d))) = m"
    and "digitsValue (drop 8 (formatDate y m d)) = d"
proof -
  from assms(3) have m: "0 \<le> m" "m \<le> 99" and d: "0 \<le> d" "d \<le> DaysInMonth (isLeapYear y) (m - 1)"
    by (simp_all add: validCalendarDate_def)
  have d99: "d \<le> 99" using d(2) DaysInMonth_le_31[of "isLeapYear y" "m - 1"] by linarith
  have y0: "0 \<le> y" using assms(1) by simp
  have p: "matchesDatePattern (formatDate y m d)"
    by (rule formatDate_pattern[OF y0 assms(2) m d(1) d99])
  show vy: "digitsValue (take 4 (formatDate y m d)) = y"
    unfolding formatDate_parts by (rule pad4_value(1)[OF y0 assms(2)])
  show vm: "digitsValue (take 2 (drop 5 (formatDate y m d))) = m"
    unfolding formatDate_parts by (rule pad2_value(1)[OF m])
  show vd: "digitsValue (drop 8 (formatDate y m d)) = d"
    unfolding formatDate_parts by (rule pad2_value(1)[OF d(1) d99])
  show "isValidDateInput (formatDate y m d)"
    unfolding isValidDateInput_iff[OF p] vy vm vd using assms(1,3) by simp
qed

section \<open>Validation of a date string\<close>

text \<open>
  Claim C2, as amended. \<open>isValidDateInput\<close> accepts only strings of the shape
  \<open>DDDD-DD-DD\<close>: ten characters, dashes at positions 4 and 7, digits elsewhere. A string of
  that shape with the components \<open>(y, m, d)\<close> is accepted exactly when \<open>y\<close> is at least 100
  and \<open>(y, m, d)\<close> is a date of the calendar; then the date built from it has exactly the
  year \<open>y\<close>, the month \<open>m\<close> and the day \<open>d\<close>. So for every date of the calendar with a year
  from 100 to 9999 the text \<open>YYYY-MM-DD\<close> of it is accepted and read back as that date. The
  strings \<open>2023-02-30\<close>, \<open>2023-13-01\<close> and \<open>2023-00-10\<close> are rejected. (Year 0000 is
  rejected by the zero test; for the years 0001 to 0099 see the counterexample.)
\<close>

theorem isValidDateInput_spec:
  "(isValidDateInput v \<longrightarrow>
      matchesDatePattern v \<and> length v = 10 \<and> v ! 4 = CHR ''-'' \<and> v ! 7 = CHR ''-''
      \<and> list_all isDigit (take 4 v) \<and> list_all isDigit (take 2 (drop 5 v))
      \<and> list_all isDigit (drop 8 v))
   \<and> (matchesDatePattern v \<longrightarrow>
        isValidDateInput v =
          (100 \<le> digitsValue (take 4 v)
           \<and> validCalendarDate (digitsValue (take 4 v)) (digitsValue (take 2 (drop 5 v)))
                (digitsValue (drop 8 v))))
   \<and> (isValidDateInput v \<longrightarrow>
        (\<exists>t. birthDate v = Some (Some (DateValue t)) \<and> validTime t
           \<and> getFullYear (DateValue t) = Num (digitsValue (take 4 v))
           \<and> getMonth (DateValue t) = Num (digitsValue (take 2 (drop 5 v)) - 1)
           \<and> getDate (DateValue t) = Num (digitsValue (drop 8 v))))
   \<and> (100 \<le> y \<and> y \<le> 9999 \<and> validCalendarDate y m d \<longrightarrow>
        isValidDateInput (formatDate y m d)
        \<and> (\<exists>t. birthDate (formatDate y m d) = Some (Some (DateValue t)) \<and> validTime t
              \<and> getFullYear (DateValue t) = Num y \<and> getMonth (DateValue t) = Num (m - 1)
              \<and> getDate (DateValue t) = Num d))
   \<and> \<not> isValidDateInput ''2023-02-30'' \<and> \<not> isValidDateInput ''2023-13-01''
   \<and> \<not> isValidDateInput ''2023-00-10''"
proof (intro conjI)
  show "isValidDateInput v \<longrightarrow>
      matchesDatePattern v \<and> length v = 10 \<and> v ! 4 = CHR ''-'' \<and> v ! 7 = CHR ''-''
      \<and> list_all isDigit (take 4 v) \<and> list_all isDigit (take 2 (drop 5 v))
      \<and> list_all isDigit (drop 8 v)"
  proof
    assume "isValidDateInput v"
    then have p: "matchesDatePattern v" by (rule isValidDateInput_imp_pattern)
    with pattern_shape[OF p] pattern_split(2,3,4)[OF p] show
      "matchesDatePattern v \<and> length v = 10 \<and> v ! 4 = CHR ''-'' \<and> v ! 7 = CHR ''-''
      \<and> list_all isDigit (take 4 v) \<and> list_all isDigit (take 2 (drop 5 v))
      \<and> list_all isDigit (drop 8 v)"
      by blast
  qed
  show "matchesDatePattern v \<longrightarrow>
        isValidDateInput v =
          (100 \<le> digitsValue (take 4 v)
           \<and> validCalendarDate (digitsValue (take 4 v)) (digitsValue (take 2 (drop 5 v)))
                (digitsValue (drop 8 v)))"
    using isValidDateInput_iff[of v] by blast
  show "isValidDateInput v \<longrightarrow>
        (\<exists>t. birthDate v = Some (Some (DateValue t)) \<and> validTime t
           \<and> getFullYear (DateValue t) = Num (digitsValue (take 4 v))
           \<and> getMonth (DateValue t) = Num (digitsValue (take 2 (drop 5 v)) - 1)
           \<and> getDate (DateValue t) = Num (digitsValue (drop 8 v)))"
    using birthDate_of_valid[of v] by blast
  show "100 \<le> y \<and> y \<le> 9999 \<and> validCalendarDate y m d \<longrightarrow>
        isValidDateInput (formatDate y m d)
        \<and> (\<exists>t. birthDate (formatDate y m d) = Some (Some (DateValue t)) \<and> validTime t
              \<and> getFullYear (DateValue t) = Num y \<and> getMonth (DateValue t) = Num (m - 1)
              \<and> getDate (DateValue t) = Num d)"
  proof
    assume "100 \<le> y \<and> y \<le> 9999 \<and> validCalendarDate y m d"
    then have a: "100 \<le> y" "y \<le> 9999" "validCalendarDate y m d" by simp_all
    note f = formatDate_valid[OF a]
    from birthDate_of_valid[OF f(1)] f(1)
    show "isValidDateInput (formatDate y m d)
        \<and> (\<exists>t. birthDate (formatDate y m d) = Some (Some (DateValue t)) \<and> validTime t
              \<and> getFullYear (DateValue t) = Num y \<and> getMonth (DateValue t) = Num (m - 1)
              \<and> getDate (DateValue t) = Num d)"
      unfolding f(2,3,4) by blast
  qed
  show "\<not> isValidDateInput ''2023-02-30''" by code_simp
  show "\<not> isValidDateInput ''2023-13-01''" by code_simp
  show "\<not> isValidDateInput ''2023-00-10''" by code_simp
qed

theorem isValidDateInput_spec_witness:
  "(100::int) \<le> 2024 \<and> (2024::int) \<le> 9999 \<and> validCalendarDate 2024 2 29
   \<and> formatDate 2024 2 29 = ''2024-02-29''
   \<and> isValidDateInput ''2024-02-29'' \<and> matchesDatePattern ''2024-02-29''
   \<and> (\<exists>t. birthDate ''2024-02-29'' = Some (Some (DateValue t)) \<and> validTime t
           \<and> getFullYear (DateValue t) = Num 2024
           \<and> getMonth (DateValue t) = Num (2 - 1)
           \<and> getDate (DateValue t) = Num 29)"
proof -
  have h: "(100::int) \<le> 2024 \<and> (2024::int) \<le> 9999 \<and> validCalendarDate 2024 2 29" by code_simp
  have f: "formatDate 2024 2 29 = ''2024-02-29''" by code_simp
  from isValidDateInput_spec[of "''2024-02-29''" 2024 2 29] h
  have a: "isValidDateInput (formatDate 2024 2 29)
        \<and> (\<exists>t. birthDate (formatDate 2024 2 29) = Some (Some (DateValue t)) \<and> validTime t
              \<and> getFullYear (DateValue t) = Num 2024 \<and> getMonth (DateValue t) = Num (2 - 1)
              \<and> getDate (DateValue t) = Num 29)"
    by blast
  then have v: "isValidDateInput ''2024-02-29''" unfolding f by simp
  from isValidDateInput_spec[of "''2024-02-29''" 2024 2 29] v
  have p: "matchesDatePattern ''2024-02-29''" by blast
  from a h f v p show ?thesis unfolding f by blast
qed

text \<open>
  The string \<open>0050-01-01\<close> has the shape and names a date of the calendar, 1 January of
  year 50, yet it is rejected: the constructor reads the year 50 as 1950, and the year of
  the date built differs from the year of the input.
\<close>

theorem isValidDateInput_year_50_counterexample:
  "matchesDatePattern ''0050-01-01''
   \<and> digitsValue (take 4 ''0050-01-01'') = 50
   \<and> digitsValue (take 2 (drop 5 ''0050-01-01'')) = 1
   \<and> digitsValue (drop 8 ''0050-01-01'') = 1
   \<and> validCalendarDate 50 1 1
   \<and> \<not> isValidDateInput ''0050-01-01''
   \<and> getFullYear (new_Date (Num 50) (Num 0) (Num 1)) = Num 1950"
  by code_simp

section \<open>Start-up with the dob parameter\<close>

text \<open>
  Claim C9. When the parameter \<open>dob\<close> is present and passes \<open>isValidDateInput\<close>, start-up
  stores it as the birth input, from which a birth date is read, and hides the picker. When
  it is present and does not pass (\<open>2023-02-30\<close> is such a value), or absent, the state is
  left as it was: the picker is shown, there is no birth date, and every cell of the grid
  has the class of a week that is not elapsed.
\<close>

theorem onMounted_spec:
  "(isValidDateInput v \<longrightarrow>
      (let st = onMounted (Some v) (initial_state now)
       in birthInput st = v \<and> hasDobParam st \<and> \<not> pickerShown st
          \<and> (\<exists>t. birthDate (birthInput st) = Some (Some (DateValue t)))))
   \<and> (\<not> isValidDateInput v \<longrightarrow>
      (let st = onMounted (Some v) (initial_state now)
       in st = initial_state now \<and> pickerShown st \<and> birthDate (birthInput st) = Some None
          \<and> (\<forall>year week. \<forall>yi wi. \<not> isWeekPassed None (today st) yi wi
                \<and> gridCell st year week = Some [''bg-neutral-800'',
                     cellClasses None (today st) year week ! 1,
                     cellClasses None (today st) year week ! 2])))
   \<and> \<not> isValidDateInput ''2023-02-30''
   \<and> onMounted None (initial_state now) = initial_state now"
proof (intro conjI impI)
  assume a: "isValidDateInput v"
  have ne: "v \<noteq> []" by (rule isValidDateInput_nonempty[OF a])
  have st: "onMounted (Some v) (initial_state now)
      = \<lparr>birthInput = v, hasDobParam = True, today = now\<rparr>"
    using a ne by (simp add: onMounted_def initial_state_def)
  from birthDate_of_valid[OF a] obtain t where "birthDate v = Some (Some (DateValue t))"
    by blast
  then show "let st = onMounted (Some v) (initial_state now)
       in birthInput st = v \<and> hasDobParam st \<and> \<not> pickerShown st
          \<and> (\<exists>t. birthDate (birthInput st) = Some (Some (DateValue t)))"
    unfolding st Let_def by (simp add: pickerShown_def)
next
  assume a: "\<not> isValidDateInput v"
  have st: "onMounted (Some v) (initial_state now) = initial_state now"
    using a by (simp add: onMounted_def)
  show "let st = onMounted (Some v) (initial_state now)
       in st = initial_state now \<and> pickerShown st \<and> birthDate (birthInput st) = Some None
          \<and> (\<forall>year week. \<forall>yi wi. \<not> isWeekPassed None (today st) yi wi
                \<and> gridCell st year week = Some [''bg-neutral-800'',
                     cellClasses None (today st) year week ! 1,
                     cellClasses None (today st) year week ! 2])"
    unfolding st Let_def
    by (simp add: initial_state_def pickerShown_def birthDate_empty gridCell_def
        cellClasses_def isWeekPassed_def)
next
  show "\<not> isValidDateInput ''2023-02-30''" by code_simp
  show "onMounted None (initial_state now) = initial_state now" by (simp add: onMounted_def)
qed

theorem onMounted_spec_witness:
  "isValidDateInput ''2000-01-01''
   \<and> birthInput (onMounted (Some ''2000-01-01'') (initial_state (DateValue 1786000000000))) = ''2000-01-01''
   \<and> \<not> pickerShown (onMounted (Some ''2000-01-01'') (initial_state (DateValue 1786000000000)))
   \<and> \<not> isValidDateInput ''2023-02-30''
   \<and> onMounted (Some ''2023-02-30'') (initial_state (DateValue 1786000000000))
       = initial_state (DateValue 1786000000000)
   \<and> pickerShown (onMounted (Some ''2023-02-30'') (initial_state (DateValue 1786000000000)))"
proof -
  have a: "isValidDateInput ''2000-01-01''" by code_simp
  have b: "\<not> isValidDateInput ''2023-02-30''" by code_simp
  from onMounted_spec[of "''2000-01-01''" "DateValue 1786000000000"] a
  have 1: "let st = onMounted (Some ''2000-01-01'') (initial_state (DateValue 1786000000000))
       in birthInput st = ''2000-01-01'' \<and> hasDobParam st \<and> \<not> pickerShown st
          \<and> (\<exists>t. birthDate (birthInput st) = Some (Some (DateValue t)))"
    by blast
  from onMounted_spec[of "''2023-02-30''" "DateValue 1786000000000"] b
  have 2: "let st = onMounted (Some ''2023-02-30'') (initial_state (DateValue 1786000000000))
       in st = initial_state (DateValue 1786000000000) \<and> pickerShown st"
    unfolding Let_def by blast
  from 1 2 a b show ?thesis unfolding Let_def by blast
qed

section \<open>The parse path of the picker\<close>

text \<open>
  Claim C10. \<open>birthDate\<close>, which reads the birth input whatever its source, applies neither
  the pattern nor the round trip of \<open>isValidDateInput\<close>: \<open>2023-02-30\<close> and \<open>2023-2-3\<close> are
  rejected by \<open>isValidDateInput\<close>, yet \<open>birthDate\<close> reads the first as 2 March 2023 (the
  day rolls over) and the second as 3 February 2023. \<open>isValidDateInput\<close> is applied to the
  \<open>dob\<close> parameter only: start-up ignores \<open>2023-02-30\<close> as a parameter, while a state
  whose birth input holds that string renders its cells from the date 2 March 2023.
\<close>

theorem birthDate_not_strict:
  "\<not> isValidDateInput ''2023-02-30''
   \<and> birthDate ''2023-02-30'' = Some (Some (DateValue 1677715200000))
   \<and> getFullYear (DateValue 1677715200000) = Num 2023
   \<and> getMonth (DateValue 1677715200000) = Num 2
   \<and> getDate (DateValue 1677715200000) = Num 2
   \<and> \<not> isValidDateInput ''2023-2-3''
   \<and> birthDate ''2023-2-3'' = Some (Some (DateValue 1675382400000))
   \<and> getFullYear (DateValue 1675382400000) = Num 2023
   \<and> getMonth (DateValue 1675382400000) = Num 1
   \<and> getDate (DateValue 1675382400000) = Num 3
   \<and> onMounted (Some ''2023-02-30'') st = st
   \<and> gridCell \<lparr>birthInput = ''2023-02-30'', hasDobParam = False, today = now\<rparr> year week
       = Some (cellClasses (Some (DateValue 1677715200000)) now year week)"
proof (intro conjI)
  show a: "\<not> isValidDateInput ''2023-02-30''" by code_simp
  show b: "birthDate ''2023-02-30'' = Some (Some (DateValue 1677715200000))" by code_simp
  show "getFullYear (DateValue 1677715200000) = Num 2023" by code_simp
  show "getMonth (DateValue 1677715200000) = Num 2" by code_simp
  show "getDate (DateValue 1677715200000) = Num 2" by code_simp
  show "\<not> isValidDateInput ''2023-2-3''" by code_simp
  show "birthDate ''2023-2-3'' = Some (Some (DateValue 1675382400000))" by code_simp
  show "getFullYear (DateValue 1675382400000) = Num 2023" by code_simp
  show "getMonth (DateValue 1675382400000) = Num 1" by code_simp
  show "getDate (DateValue 1675382400000) = Num 3" by code_simp
  show "onMounted (Some ''2023-02-30'') st = st" using a by (simp add: onMounted_def)
  show "gridCell \<lparr>birthInput = ''2023-02-30'', hasDobParam = False, today = now\<rparr> year week
       = Some (cellClasses (Some (DateValue 1677715200000)) now year week)"
    unfolding gridCell_def using b by simp
qed

end
